theory Spec2Isabelle
  imports Complex_Main "HOL-Library.Word"
begin

section \<open>Command-line sizes\<close>

text \<open>
  The script \<^verbatim>\<open>1.hapsim_and_realize_dichotomous.py\<close> reads its sizes from the
  command line: \<^verbatim>\<open>n_gwa = int(args.n_gwa)\<close>, \<^verbatim>\<open>n_case = int(n_gwa / 2)\<close>,
  \<^verbatim>\<open>n_ld_total = np.sum(n_ld_int) * n_rep\<close> and \<^verbatim>\<open>tot_n_case = n_case * n_rep\<close>.
  Sample sizes are counts, so they are natural numbers here; on a natural number
  \<^verbatim>\<open>int(n / 2)\<close> (true division, then truncation) is \<open>n div 2\<close>.
\<close>

definition n_case :: "nat \<Rightarrow> nat" where
  "n_case n_gwa = n_gwa div 2"

definition tot_n_case :: "nat \<Rightarrow> nat \<Rightarrow> nat" where
  "tot_n_case n_gwa n_rep = n_case n_gwa * n_rep"

definition n_ld_total :: "nat list \<Rightarrow> nat \<Rightarrow> nat" where
  "n_ld_total n_ld_int n_rep = sum_list n_ld_int * n_rep"

text \<open>
  A parameter combination is a pair (prevalence, causal proportion), both kept as the
  strings of the command line; \<^verbatim>\<open>product(prevalence_lst, pqtl_lst)\<close> lists them with
  the prevalence as the outer loop. A theorem that needs the listed combinations to be
  distinct (no value given twice on the command line) says so.
\<close>

type_synonym key = "string \<times> string"

definition combinations :: "string list \<Rightarrow> string list \<Rightarrow> key list" where
  "combinations prevalence_lst pqtl_lst = List.product prevalence_lst pqtl_lst"

section \<open>Dosage rows\<close>

text \<open>
  A genotype dosage is a numpy \<^verbatim>\<open>int8\<close>; a row of a dosage matrix holds one dosage per
  SNP of the gene.
\<close>

type_synonym dosage = "8 word"
type_synonym dosage_row = "dosage list"

section \<open>Association tests: the allele-count table\<close>

text \<open>
  For one replicate, \<^verbatim>\<open>X_case.sum(axis=1)\<close> adds the dosages of the replicate's cases
  SNP by SNP (numpy adds \<^verbatim>\<open>int8\<close> values in the platform integer, so the sum does
  not wrap). \<open>col_sum rows j\<close> is entry \<open>j\<close> of that sum; the rows have one entry per
  SNP and \<open>j\<close> ranges over \<^verbatim>\<open>range(m)\<close>.
\<close>

definition col_sum :: "dosage_row list \<Rightarrow> nat \<Rightarrow> int" where
  "col_sum rows j = sum_list (map (\<lambda>row. sint (row ! j)) rows)"

text \<open>
  The table of one replicate and one SNP, as lines 255-262 build it:
  \<^verbatim>\<open>a = X_case.sum(axis=1); b = n_gwa * 2 - a; c = X_ctrl.sum(axis=1); d = n_gwa * 2 - c\<close>
  and \<^verbatim>\<open>table = [[a, b], [c, d]]\<close>.
\<close>

record table =
  cell_a :: int
  cell_b :: int
  cell_c :: int
  cell_d :: int

definition chi2_table :: "nat \<Rightarrow> dosage_row list \<Rightarrow> dosage_row list \<Rightarrow> nat \<Rightarrow> table" where
  "chi2_table n_gwa X_case X_ctrl j =
     (let a = col_sum X_case j;
          b = int n_gwa * 2 - a;
          c = col_sum X_ctrl j;
          d = int n_gwa * 2 - c
      in \<lparr>cell_a = a, cell_b = b, cell_c = c, cell_d = d\<rparr>)"

text \<open>
  What the comment above the table (\<^verbatim>\<open>A1 A2 / case a b / ctrl c d\<close>) names: the number
  of A1 alleles and of A2 alleles carried by a group of diploid individuals. An individual
  of dosage \<open>x\<close> carries \<open>x\<close> copies of A1 and \<open>2 - x\<close> copies of A2.
\<close>

definition a1_count :: "dosage_row list \<Rightarrow> nat \<Rightarrow> int" where
  "a1_count rows j = sum_list (map (\<lambda>row. sint (row ! j)) rows)"

definition a2_count :: "dosage_row list \<Rightarrow> nat \<Rightarrow> int" where
  "a2_count rows j = sum_list (map (\<lambda>row. 2 - sint (row ! j)) rows)"

section \<open>Case/control accumulation\<close>

text \<open>
  The numpy calls that can fail raise \<^verbatim>\<open>ValueError\<close> (a \<^verbatim>\<open>reshape\<close> to a shape of
  another size); a lookup of a missing label raises \<^verbatim>\<open>KeyError\<close>.
\<close>

datatype error = ValueError | KeyError

text \<open>
  \<^verbatim>\<open>i_case = np.where(y)[0]\<close> lists, in increasing order, the positions of the boolean
  vector \<open>y\<close> (of \<open>n\<close> entries) that hold \<^verbatim>\<open>True\<close>;
  \<^verbatim>\<open>i_ctrl = np.where(~y)[0][:i_case.shape[0]]\<close> lists the positions that hold
  \<^verbatim>\<open>False\<close> and keeps at most as many of them as there are cases.
  \<^verbatim>\<open>X[idx]\<close> picks the rows of \<open>X\<close> at the positions \<open>idx\<close> (always positions of \<open>X\<close>
  here). The rows of a pool are kept abstract: the association tests use dosage rows, and
  a row may also carry the identity of the sampled individual.
\<close>

definition i_case :: "(nat \<Rightarrow> bool) \<Rightarrow> nat \<Rightarrow> nat list" where
  "i_case y n = filter y [0..<n]"

definition i_ctrl :: "(nat \<Rightarrow> bool) \<Rightarrow> nat \<Rightarrow> nat list" where
  "i_ctrl y n = take (length (i_case y n)) (filter (\<lambda>i. \<not> y i) [0..<n])"

definition rows_at :: "'r list \<Rightarrow> nat list \<Rightarrow> 'r list" where
  "rows_at X idx = map (\<lambda>i. X ! i) idx"

text \<open>
  The accumulation state of \<^verbatim>\<open>hapsim_one_gene\<close>: the table \<^verbatim>\<open>n_collected\<close> and the
  dictionaries \<^verbatim>\<open>X_case_dict\<close> and \<^verbatim>\<open>X_ctrl_dict\<close> (lists of batches of rows), keyed by
  the parameter combination, and the list \<^verbatim>\<open>X_idx_used\<close> of index arrays. The realizing
  loop sets the entry of every combination before anything reads it.
\<close>

record 'r acc =
  n_collected :: "key \<Rightarrow> nat"
  X_case_dict :: "key \<Rightarrow> 'r list list"
  X_ctrl_dict :: "key \<Rightarrow> 'r list list"
  X_idx_used :: "nat list list"

definition empty_acc :: "'r acc" where
  "empty_acc = \<lparr>n_collected = (\<lambda>_. 0), X_case_dict = (\<lambda>_. []), X_ctrl_dict = (\<lambda>_. []),
     X_idx_used = []\<rparr>"

text \<open>
  Lines 151-161, for one combination \<open>k\<close>. The liability \<^verbatim>\<open>y_norm\<close> is a floating-point
  score plus fresh normal noise; the model takes its thresholded vector
  \<^verbatim>\<open>y = y_norm > th\<close> as the random draw, one boolean per row of the pool.
\<close>

definition collect_pop0 :: "'r list \<Rightarrow> (key \<Rightarrow> nat \<Rightarrow> bool) \<Rightarrow> key \<Rightarrow> 'r acc \<Rightarrow> 'r acc" where
  "collect_pop0 X_pop0 y k st =
     (let ics = i_case (y k) (length X_pop0);
          ict = i_ctrl (y k) (length X_pop0)
      in st\<lparr>n_collected := (n_collected st)(k := length ics),
            X_case_dict := (X_case_dict st)(k := [rows_at X_pop0 ics]),
            X_ctrl_dict := (X_ctrl_dict st)(k := [rows_at X_pop0 ict]),
            X_idx_used := X_idx_used st @ [ics, ict]\<rparr>)"

definition realize :: "key list \<Rightarrow> 'r list \<Rightarrow> (key \<Rightarrow> nat \<Rightarrow> bool) \<Rightarrow> 'r acc" where
  "realize keys X_pop0 y = fold (collect_pop0 X_pop0 y) keys empty_acc"

text \<open>
  Lines 166-167: \<^verbatim>\<open>np.unique(np.concatenate(X_idx_used))\<close> is the sorted list of the used
  indices without repetition, \<^verbatim>\<open>np.delete\<close> drops the rows at these indices, and the
  slice keeps the first \<^verbatim>\<open>n_ld_total\<close> of the remaining rows.
\<close>

definition ld_pool :: "nat \<Rightarrow> 'r list \<Rightarrow> nat list list \<Rightarrow> 'r list" where
  "ld_pool n_ld_tot X_pop0 idx_used =
     (let used = sort (remdups (concat idx_used))
      in take n_ld_tot (rows_at X_pop0 (filter (\<lambda>i. i \<notin> set used) [0..<length X_pop0])))"

text \<open>
  \<^verbatim>\<open>A.reshape(n, k, m)\<close> of a matrix with \<open>m > 0\<close> columns cuts its rows into \<open>n\<close>
  consecutive blocks of \<open>k\<close> rows, and raises unless there are exactly \<open>n * k\<close> rows.
\<close>

definition reshape :: "nat \<Rightarrow> nat \<Rightarrow> 'r list \<Rightarrow> error + 'r list list" where
  "reshape n k xs =
     (if length xs = n * k then Inr (map (\<lambda>i. take k (drop (i * k) xs)) [0..<n])
      else Inl ValueError)"

text \<open>
  Lines 175-181: the loop over the LD panel sizes, \<^verbatim>\<open>X_pop0[start:end]\<close> reshaped into
  one panel per replicate.
\<close>

fun split_ld :: "nat \<Rightarrow> nat \<Rightarrow> 'r list \<Rightarrow> nat list \<Rightarrow> error + 'r list list list" where
  "split_ld n_rep start X_pop0 [] = Inr []"
| "split_ld n_rep start X_pop0 (n_ld # sizes) =
     (let stop = start + n_rep * n_ld in
      case reshape n_rep n_ld (take (stop - start) (drop start X_pop0)) of
        Inl e \<Rightarrow> Inl e
      | Inr panels \<Rightarrow>
          (case split_ld n_rep stop X_pop0 sizes of
             Inl e \<Rightarrow> Inl e
           | Inr rest \<Rightarrow> Inr (panels # rest)))"

text \<open>
  One round of the oversampling loop draws a matrix \<open>X\<close> of fresh rows and, for each
  combination that is still short, a label vector \<open>y\<close> over these rows.
\<close>

record 'r draw =
  draw_X :: "'r list"
  draw_y :: "key \<Rightarrow> nat \<Rightarrow> bool"

text \<open>Lines 202-210, for one combination \<open>k\<close>; \<open>tot\<close> is \<^verbatim>\<open>tot_n_case\<close>.\<close>

definition collect_batch :: "nat \<Rightarrow> 'r draw \<Rightarrow> key \<Rightarrow> 'r acc \<Rightarrow> 'r acc" where
  "collect_batch tot dr k st =
     (if n_collected st k < tot then
        (let ics = i_case (draw_y dr k) (length (draw_X dr));
             ict = i_ctrl (draw_y dr k) (length (draw_X dr))
         in st\<lparr>n_collected := (n_collected st)(k := n_collected st k + length ics),
               X_case_dict := (X_case_dict st)(k := X_case_dict st k @ [rows_at (draw_X dr) ics]),
               X_ctrl_dict := (X_ctrl_dict st)(k := X_ctrl_dict st k @ [rows_at (draw_X dr) ict])\<rparr>)
      else st)"

definition sampling_round :: "key list \<Rightarrow> nat \<Rightarrow> 'r draw \<Rightarrow> 'r acc \<Rightarrow> 'r acc" where
  "sampling_round keys tot dr st = fold (collect_batch tot dr) keys st"

text \<open>
  Lines 197-210: \<^verbatim>\<open>while np.any(n_collected < tot_n_case)\<close>. The draw of round \<open>r\<close> is
  \<open>draws r\<close>. The loop has no bound on its rounds, so it is a partial function: \<open>None\<close>
  is a run that never leaves the loop.
\<close>

partial_function (option) accumulate ::
  "key list \<Rightarrow> nat \<Rightarrow> (nat \<Rightarrow> 'r draw) \<Rightarrow> nat \<Rightarrow> 'r acc \<Rightarrow> 'r acc option" where
  "accumulate keys tot draws r st =
     (if (\<exists>k \<in> set keys. n_collected st k < tot)
      then accumulate keys tot draws (Suc r) (sampling_round keys tot (draws r) st)
      else Some st)"

text \<open>The state after \<open>n\<close> further rounds of the loop, starting at round \<open>r\<close>.\<close>

fun rounds :: "key list \<Rightarrow> nat \<Rightarrow> (nat \<Rightarrow> 'r draw) \<Rightarrow> nat \<Rightarrow> nat \<Rightarrow> 'r acc \<Rightarrow> 'r acc" where
  "rounds keys tot draws r 0 st = st"
| "rounds keys tot draws r (Suc n) st =
     rounds keys tot draws (Suc r) n (sampling_round keys tot (draws r) st)"

text \<open>
  Lines 214-217: the pools of one combination are concatenated, cut to \<^verbatim>\<open>tot_n_case\<close>
  rows and reshaped into one block per replicate; \<^verbatim>\<open>X_gwa_dict\<close> joins the cases and
  the controls of each replicate.
\<close>

definition divide ::
  "nat \<Rightarrow> nat \<Rightarrow> 'r acc \<Rightarrow> key \<Rightarrow> error + ('r list list \<times> 'r list list \<times> 'r list list)" where
  "divide n_rep n_cs st k =
     (case reshape n_rep n_cs (take (n_cs * n_rep) (concat (X_case_dict st k))) of
        Inl e \<Rightarrow> Inl e
      | Inr X_case \<Rightarrow>
          (case reshape n_rep n_cs (take (n_cs * n_rep) (concat (X_ctrl_dict st k))) of
             Inl e \<Rightarrow> Inl e
           | Inr X_ctrl \<Rightarrow> Inr (X_case, X_ctrl, map2 (@) X_case X_ctrl)))"


text \<open>
  The origin of the rows in the pools of a combination before round \<open>r\<close>: no row occurs
  twice among its cases and controls, and each row is one of the rows \<open>A\<close> or a row of
  the draw of an earlier round.
\<close>

definition fresh_pools :: "'r set \<Rightarrow> (nat \<Rightarrow> 'r draw) \<Rightarrow> nat \<Rightarrow> 'r acc \<Rightarrow> key \<Rightarrow> bool" where
  "fresh_pools A draws r st k \<longleftrightarrow>
     distinct (concat (X_case_dict st k) @ concat (X_ctrl_dict st k)) \<and>
     set (concat (X_case_dict st k) @ concat (X_ctrl_dict st k))
       \<subseteq> A \<union> (\<Union>r' \<in> {..<r}. set (draw_X (draws r')))"

subsection \<open>A run with one combination\<close>

text \<open>
  One combination and one SNP (a batch size of one row: the initial pool has two rows
  and a round has ten). The two rows of the initial pool, of dosages 0 and 2, are both
  labelled controls; of the ten rows of a round the first six are labelled cases.
\<close>

definition pool_keys :: "key list" where
  "pool_keys = combinations [''0.1''] [''0.5'']"



definition pool_draws :: "nat \<Rightarrow> dosage_row draw" where
  "pool_draws r = \<lparr>draw_X = [[1], [2], [1], [0], [2], [1], [0], [0], [1], [0]],
                   draw_y = (\<lambda>k i. i < 6)\<rparr>"



subsection \<open>A state with two combinations\<close>

text \<open>
  Two prevalences and one causal proportion; in the initial pool of four rows the first two
  are cases of the second combination and none is a case of the first.
\<close>

definition two_keys :: "key list" where
  "two_keys = combinations [''0.1'', ''0.3''] [''0.5'']"

definition two_y0 :: "key \<Rightarrow> nat \<Rightarrow> bool" where
  "two_y0 k i = (fst k = ''0.3'' \<and> i < 2)"

definition two_start :: "dosage_row acc" where
  "two_start = realize two_keys [[0], [1], [2], [1]] two_y0"

subsection \<open>A run over numbered individuals\<close>

text \<open>
  The rows are the numbers of the individuals: six in the initial pool, of which the
  first is a case, and ten new ones in every round, of which the first six are cases.
\<close>

definition ids_X_pop0 :: "nat list" where
  "ids_X_pop0 = [0, 1, 2, 3, 4, 5]"

definition ids_y0 :: "key \<Rightarrow> nat \<Rightarrow> bool" where
  "ids_y0 k i = (i < 1)"

definition ids_draws :: "nat \<Rightarrow> nat draw" where
  "ids_draws r = \<lparr>draw_X = map (\<lambda>i. 100 * Suc r + i) [0..<10], draw_y = (\<lambda>k i. i < 6)\<rparr>"

definition ids_end :: "nat acc" where
  "ids_end = sampling_round pool_keys (tot_n_case 4 2) (ids_draws 0)
     (realize pool_keys ids_X_pop0 ids_y0)"

section \<open>Summary-statistic files\<close>

text \<open>
  A row of \<^verbatim>\<open>plink_bim\<close>: the columns \<^verbatim>\<open>CHR, SNP, CM, BP, A1, A2\<close> of the annotation
  table.
\<close>

record bim_row =
  bim_CHR :: string
  bim_SNP :: string
  bim_CM :: int
  bim_BP :: int
  bim_A1 :: string
  bim_A2 :: string

text \<open>
  \<^verbatim>\<open>write_sumstats\<close> (lines 219-242) adds the columns \<^verbatim>\<open>Z\<close>, \<^verbatim>\<open>N\<close> and \<^verbatim>\<open>P\<close> to a
  copy of the annotation table and writes it in three layouts: the generic one
  (\<^verbatim>\<open>CHR, BP, P, SNP, A1, A2, Z, N\<close>), the LDER one (\<^verbatim>\<open>snp, chr, a0, a1, z\<close>) and the
  LDAK one (\<^verbatim>\<open>Predictor, A1, A2, n, Z\<close>).
\<close>

record sumstat_row =
  col_CHR :: string
  col_BP :: int
  col_P :: real
  col_SNP :: string
  col_A1 :: string
  col_A2 :: string
  col_Z :: real
  col_N :: nat

record lder_row =
  lder_snp :: string
  lder_chr :: string
  lder_a0 :: string
  lder_a1 :: string
  lder_z :: real

record ldak_row =
  ldak_Predictor :: string
  ldak_A1 :: string
  ldak_A2 :: string
  ldak_n :: nat
  ldak_Z :: real

datatype sumstat_file =
  Sumstat "sumstat_row list" | Lder_sumstat "lder_row list" | Ldak_sumstat "ldak_row list"

text \<open>
  The table \<^verbatim>\<open>sumstat\<close> of one replicate: the annotation rows with the replicate's
  statistics \<^verbatim>\<open>z_[j_]\<close>, the constant \<^verbatim>\<open>n_gwa\<close> and the p-values
  \<^verbatim>\<open>norm.sf(np.abs(z_)) * 2\<close>. The survival function of the normal distribution is
  scipy's and is a parameter.
\<close>

definition sumstat :: "(real \<Rightarrow> real) \<Rightarrow> nat \<Rightarrow> bim_row list \<Rightarrow> real list \<Rightarrow> sumstat_row list" where
  "sumstat norm_sf n_gwa plink_bim_i z =
     map2 (\<lambda>b zj. \<lparr>col_CHR = bim_CHR b, col_BP = bim_BP b, col_P = norm_sf \<bar>zj\<bar> * 2,
                   col_SNP = bim_SNP b, col_A1 = bim_A1 b, col_A2 = bim_A2 b,
                   col_Z = zj, col_N = n_gwa\<rparr>) plink_bim_i z"

definition to_lder :: "sumstat_row \<Rightarrow> lder_row" where
  "to_lder s = \<lparr>lder_snp = col_SNP s, lder_chr = col_CHR s, lder_a0 = col_A1 s,
     lder_a1 = col_A2 s, lder_z = col_Z s\<rparr>"

definition to_ldak :: "sumstat_row \<Rightarrow> ldak_row" where
  "to_ldak s = \<lparr>ldak_Predictor = col_SNP s, ldak_A1 = col_A1 s, ldak_A2 = col_A2 s,
     ldak_n = col_N s, ldak_Z = col_Z s\<rparr>"

text \<open>
  The files written for the statistics \<open>zr\<close> (one list per replicate) under the name
  \<open>stem\<close>: for replicate \<open>jr\<close> the three files \<^verbatim>\<open>rep{j_}/{stem}.sumstat.gz\<close>,
  \<^verbatim>\<open>.lder.sumstat.gz\<close> and \<^verbatim>\<open>.ldak.sumstat\<close>, each named here by the replicate, the
  stem and the suffix.
\<close>

definition write_sumstats ::
  "(real \<Rightarrow> real) \<Rightarrow> nat \<Rightarrow> nat \<Rightarrow> bim_row list \<Rightarrow> real list list \<Rightarrow> string
    \<Rightarrow> ((nat \<times> string \<times> string) \<times> sumstat_file) list" where
  "write_sumstats norm_sf n_gwa n_rep plink_bim_i zr stem =
     concat (map (\<lambda>jr.
       (let s = sumstat norm_sf n_gwa plink_bim_i (zr ! jr) in
        [((jr, stem, ''.sumstat.gz''), Sumstat s),
         ((jr, stem, ''.lder.sumstat.gz''), Lder_sumstat (map to_lder s)),
         ((jr, stem, ''.ldak.sumstat''), Ldak_sumstat (map to_ldak s))])) [0..<n_rep])"

text \<open>The sample-size column of a file: \<^verbatim>\<open>N\<close>, or \<^verbatim>\<open>n\<close> in the LDAK layout.\<close>

fun size_column :: "sumstat_file \<Rightarrow> nat list" where
  "size_column (Sumstat rows) = map col_N rows"
| "size_column (Lder_sumstat rows) = []"
| "size_column (Ldak_sumstat rows) = map ldak_n rows"

subsection \<open>A run with an odd sample size\<close>

text \<open>
  One combination and an initial pool of three rows over one SNP whose first row is a
  case; the annotation table has two SNPs.
\<close>

definition odd_y0 :: "key \<Rightarrow> nat \<Rightarrow> bool" where
  "odd_y0 k i = (i < 1)"

definition odd_start :: "dosage_row acc" where
  "odd_start = realize pool_keys [[1], [0], [2]] odd_y0"

definition odd_bim :: "bim_row list" where
  "odd_bim = [\<lparr>bim_CHR = ''1'', bim_SNP = ''rs1'', bim_CM = 0, bim_BP = 100, bim_A1 = ''A'', bim_A2 = ''G''\<rparr>,
              \<lparr>bim_CHR = ''1'', bim_SNP = ''rs2'', bim_CM = 0, bim_BP = 200, bim_A1 = ''C'', bim_A2 = ''T''\<rparr>]"

section \<open>Processing one gene\<close>

text \<open>
  A row of the region table, indexed by the gene: the columns \<^verbatim>\<open>CHR, START, END\<close>.
\<close>

record region_row =
  region_CHR :: string
  region_START :: int
  region_END :: int

text \<open>
  What \<^verbatim>\<open>hapsim_one_gene\<close> does to the outside: it loads the R package, writes log
  records and, for a gene with SNPs, runs shell commands and writes files.
\<close>

datatype event = Importr string | Log_info string | Work string

text \<open>The decimal digits of a number, as an f-string prints it.\<close>

fun str_nat :: "nat \<Rightarrow> string" where
  "str_nat n =
     (if n < 10 then [''0123456789'' ! n]
      else str_nat (n div 10) @ [''0123456789'' ! (n mod 10)])"

text \<open>
  Lines 73-75: the positions of the annotation rows on the region's chromosome whose
  base-pair position lies between the region's start and end.
\<close>

definition snp_idx :: "bim_row list \<Rightarrow> region_row \<Rightarrow> nat list" where
  "snp_idx plink_bim reg =
     filter (\<lambda>i. bim_CHR (plink_bim ! i) = region_CHR reg
                \<and> bim_BP (plink_bim ! i) \<ge> region_START reg
                \<and> bim_BP (plink_bim ! i) \<le> region_END reg) [0..<length plink_bim]"

text \<open>
  \<^verbatim>\<open>hapsim_one_gene\<close>. \<^verbatim>\<open>region.loc[gene, 'CHR']\<close> raises \<^verbatim>\<open>KeyError\<close> for a gene
  that is not in the region table. With no SNP in the region the function logs the skip
  and returns 0 (lines 82-84). Everything after that (lines 88-277: the files of the
  gene, the sampling and the association tests) is the parameter \<open>simulate\<close>, which
  yields the events of that work or an error.
\<close>

definition hapsim_one_gene ::
  "(string \<rightharpoonup> region_row) \<Rightarrow> bim_row list \<Rightarrow> (string \<Rightarrow> nat list \<Rightarrow> error + event list)
    \<Rightarrow> string \<Rightarrow> error + (event list \<times> nat)" where
  "hapsim_one_gene region plink_bim simulate gene =
     (case region gene of
        None \<Rightarrow> Inl KeyError
      | Some reg \<Rightarrow>
          (let idx = snp_idx plink_bim reg;
               m = length idx
           in if m = 0
              then Inr ([Importr ''hapsim'',
                         Log_info (''Skipped '' @ str_nat m @ '' SNPs in '' @ gene @ ''.'')], 0)
              else (case simulate gene idx of
                      Inl e \<Rightarrow> Inl e
                    | Inr work \<Rightarrow>
                        Inr ([Importr ''hapsim'',
                              Log_info (''Start simulating '' @ str_nat m @ '' SNPs in '' @ gene
                                        @ '' ...'')]
                             @ work
                             @ [Log_info (''Done simulation of '' @ str_nat m @ '' SNPs in ''
                                          @ gene @ ''.'')], m))))"

text \<open>
  Lines 304-305: \<^verbatim>\<open>Pool(args.nt).map(hapsim_one_gene, gene_list)\<close> returns the results in
  the order of the genes and raises if a call raised; the table \<^verbatim>\<open>snp_counts.tsv\<close>
  pairs each gene with its result.
\<close>

fun pool_map :: "('a \<Rightarrow> error + 'b) \<Rightarrow> 'a list \<Rightarrow> error + 'b list" where
  "pool_map f [] = Inr []"
| "pool_map f (x # xs) =
     (case f x of
        Inl e \<Rightarrow> Inl e
      | Inr v \<Rightarrow> (case pool_map f xs of Inl e \<Rightarrow> Inl e | Inr vs \<Rightarrow> Inr (v # vs)))"

definition snp_counts ::
  "(string \<rightharpoonup> region_row) \<Rightarrow> bim_row list \<Rightarrow> (string \<Rightarrow> nat list \<Rightarrow> error + event list)
    \<Rightarrow> string list \<Rightarrow> error + (string \<times> nat) list" where
  "snp_counts region plink_bim simulate gene_list =
     (case pool_map (hapsim_one_gene region plink_bim simulate) gene_list of
        Inl e \<Rightarrow> Inl e
      | Inr results \<Rightarrow> Inr (zip gene_list (map snd results)))"

subsection \<open>A region table with a chromosome that the panel lacks\<close>

definition some_region :: "string \<rightharpoonup> region_row" where
  "some_region = [''G1'' \<mapsto> \<lparr>region_CHR = ''1'', region_START = 50, region_END = 150\<rparr>,
                  ''G7'' \<mapsto> \<lparr>region_CHR = ''7'', region_START = 1, region_END = 1000\<rparr>]"

definition some_simulate :: "string \<Rightarrow> nat list \<Rightarrow> error + event list" where
  "some_simulate gene idx = Inr [Work (''mkdir -p out/'' @ gene)]"

section \<open>Loading the reference panel\<close>

text \<open>
  The metadata columns of a row of the reference VCF that the script keeps. The genotype
  columns are parsed into the matrix \<^verbatim>\<open>ref_haplo\<close> (lines 289-290), which has one row per
  haplotype and one column per SNP; it is kept here as the list of its columns, one per
  VCF row, and is an input of the filter.
\<close>

record vcf_row =
  vcf_CHR :: string
  vcf_BP :: int
  vcf_SNP :: string
  vcf_REF :: string
  vcf_ALT :: string

text \<open>
  The allele frequency of a SNP: the exact mean of its column of \<^verbatim>\<open>ref_haplo\<close>.
\<close>

definition exact_frq :: "dosage list \<Rightarrow> real" where
  "exact_frq col = real_of_int (sum_list (map sint col)) / real (length col)"

text \<open>
  Line 293: \<^verbatim>\<open>ref_haplo.mean(axis=0)\<close>. numpy adds the \<^verbatim>\<open>int8\<close> entries of a column in
  \<^verbatim>\<open>float64\<close>, which is exact for such sums, and divides by the number of haplotypes;
  the quotient is rounded to a \<^verbatim>\<open>float64\<close>. The rounding of \<^verbatim>\<open>float64\<close> arithmetic is
  the parameter \<open>fl\<close>: an operation returns \<open>fl\<close> of its exact result. The mean of no
  value at all is \<^verbatim>\<open>nan\<close>, here \<open>None\<close>, and every comparison with it is false.
\<close>

definition column_mean :: "(real \<Rightarrow> real) \<Rightarrow> dosage list \<Rightarrow> real option" where
  "column_mean fl col = (if col = [] then None else Some (fl (exact_frq col)))"

text \<open>
  Line 294: \<^verbatim>\<open>(allele_frq > args.maf_min) & (allele_frq < 1 - args.maf_min)\<close>, where
  \<^verbatim>\<open>args.maf_min\<close> is a finite \<^verbatim>\<open>float64\<close> and the difference is computed in
  \<^verbatim>\<open>float64\<close>. Comparisons of \<^verbatim>\<open>float64\<close> numbers are exact.
\<close>

definition in_band :: "(real \<Rightarrow> real) \<Rightarrow> real \<Rightarrow> real option \<Rightarrow> bool" where
  "in_band fl maf_min frq =
     (case frq of None \<Rightarrow> False | Some f \<Rightarrow> f > maf_min \<and> f < fl (1 - maf_min))"

text \<open>Indexing by a boolean mask keeps the entries whose mask is true.\<close>

definition masked :: "bool list \<Rightarrow> 'a list \<Rightarrow> 'a list" where
  "masked keep xs = map fst (filter snd (zip xs keep))"

definition to_bim :: "vcf_row \<Rightarrow> bim_row" where
  "to_bim row = \<lparr>bim_CHR = vcf_CHR row, bim_SNP = vcf_SNP row, bim_CM = 0, bim_BP = vcf_BP row,
     bim_A1 = vcf_ALT row, bim_A2 = vcf_REF row\<rparr>"

record panel =
  panel_haplo :: "dosage list list"
  panel_frq :: "real option list"
  panel_bim :: "bim_row list"

text \<open>Lines 293-299: the filter by allele frequency.\<close>

definition maf_filter ::
  "(real \<Rightarrow> real) \<Rightarrow> real \<Rightarrow> vcf_row list \<Rightarrow> dosage list list \<Rightarrow> panel" where
  "maf_filter fl maf_min vcf ref_haplo =
     (let allele_frq = map (column_mean fl) ref_haplo;
          extract = map (in_band fl maf_min) allele_frq
      in \<lparr>panel_haplo = masked extract ref_haplo,
          panel_frq = masked extract allele_frq,
          panel_bim = map to_bim (masked extract vcf)\<rparr>)"

subsection \<open>A panel of three SNPs and two samples\<close>

text \<open>
  Four haplotypes, so that the frequencies are multiples of 1/4; with \<^verbatim>\<open>maf_min\<close> 1/8
  every number of the filter is a \<^verbatim>\<open>float64\<close> and no operation rounds.
\<close>

definition small_vcf :: "vcf_row list" where
  "small_vcf =
     [\<lparr>vcf_CHR = ''1'', vcf_BP = 100, vcf_SNP = ''rs1'', vcf_REF = ''G'', vcf_ALT = ''A''\<rparr>,
      \<lparr>vcf_CHR = ''1'', vcf_BP = 200, vcf_SNP = ''rs2'', vcf_REF = ''T'', vcf_ALT = ''C''\<rparr>,
      \<lparr>vcf_CHR = ''1'', vcf_BP = 300, vcf_SNP = ''rs3'', vcf_REF = ''A'', vcf_ALT = ''T''\<rparr>]"

definition small_haplo :: "dosage list list" where
  "small_haplo = [[0, 1, 1, 0], [0, 0, 0, 0], [1, 0, 0, 0]]"

section \<open>Sampling dosages\<close>

text \<open>
  \<^verbatim>\<open>sample_once\<close> (lines 118-121). The draw
  \<^verbatim>\<open>np.random.multivariate_normal(np.zeros(m), C, (2, subsample_size))\<close> is the pair of
  matrices \<open>X0\<close> and \<open>X1\<close>, each of \<^verbatim>\<open>subsample_size\<close> rows of \<open>m\<close> numbers;
  \<^verbatim>\<open>percent_point = norm.ppf(allele_frq_i)\<close> has one quantile per SNP. The comparison
  \<^verbatim>\<open>X_ < percent_point\<close> goes along the SNPs of every row, and \<^verbatim>\<open>np.int8\<close> turns
  each outcome into 1 or 0.
\<close>

definition haplotype_calls :: "real list \<Rightarrow> real list list \<Rightarrow> dosage_row list" where
  "haplotype_calls percent_point Xh =
     map (\<lambda>row. map2 (\<lambda>x q. if x < q then 1 else 0) row percent_point) Xh"

definition sample_once :: "real list \<Rightarrow> real list list \<times> real list list \<Rightarrow> dosage_row list" where
  "sample_once percent_point Xd =
     map2 (map2 (+)) (haplotype_calls percent_point (fst Xd)) (haplotype_calls percent_point (snd Xd))"

section \<open>Realizing effect sizes\<close>

text \<open>
  Lines 146-149. The numbers are numpy \<^verbatim>\<open>float64\<close> values; the model computes with real
  numbers, so that rounding is left out. \<^verbatim>\<open>x.std()\<close> is the population standard
  deviation (no degrees of freedom subtracted), the square root of the mean squared
  deviation from the mean; \<^verbatim>\<open>X @ beta\<close> multiplies every row of \<open>X\<close> with the vector
  \<open>beta\<close>.
\<close>

definition np_mean :: "real list \<Rightarrow> real" where
  "np_mean xs = sum_list xs / real (length xs)"

definition np_var :: "real list \<Rightarrow> real" where
  "np_var xs = np_mean (map (\<lambda>x. (x - np_mean xs)\<^sup>2) xs)"

definition np_std :: "real list \<Rightarrow> real" where
  "np_std xs = sqrt (np_var xs)"

definition dot :: "real list \<Rightarrow> real list \<Rightarrow> real" where
  "dot row beta = sum_list (map2 (*) row beta)"

definition matvec :: "real list list \<Rightarrow> real list \<Rightarrow> real list" where
  "matvec X beta = map (\<lambda>row. dot row beta) X"

text \<open>
  \<^verbatim>\<open>genetic_eff = X_pop0_stdz @ beta\<close>, \<^verbatim>\<open>scale_factor = h2g ** 0.5 / genetic_eff.std()\<close>
  and \<^verbatim>\<open>realized_beta[(prvl, pqtl)] = beta * scale_factor\<close>, for a heritability
  \<open>h2g\<close> that is not negative.
\<close>

definition scale_factor :: "real \<Rightarrow> real list list \<Rightarrow> real list \<Rightarrow> real" where
  "scale_factor h2g X_pop0_stdz beta =
     (let genetic_eff = matvec X_pop0_stdz beta;
          genetic_eff_std = np_std genetic_eff
      in sqrt h2g / genetic_eff_std)"

definition realized_beta :: "real \<Rightarrow> real list list \<Rightarrow> real list \<Rightarrow> real list" where
  "realized_beta h2g X_pop0_stdz beta =
     map (\<lambda>b. b * scale_factor h2g X_pop0_stdz beta) beta"

section \<open>Association tests: the signed chi-squared statistic\<close>

text \<open>
  The odds ratio of line 264 divides numpy integers and then numpy floats, where a
  division by zero gives an infinity or \<^verbatim>\<open>nan\<close> instead of raising. A value of such a
  computation is a real number, an infinity or \<^verbatim>\<open>nan\<close>; zeros are positive zeros, as
  they are for the counts of a table, which are not negative.
\<close>

datatype npfloat = Finite real | PosInf | NegInf | NaN

fun np_div :: "npfloat \<Rightarrow> npfloat \<Rightarrow> npfloat" where
  "np_div NaN y = NaN"
| "np_div x NaN = NaN"
| "np_div (Finite x) (Finite y) =
     (if y \<noteq> 0 then Finite (x / y)
      else if x = 0 then NaN else if x > 0 then PosInf else NegInf)"
| "np_div (Finite x) PosInf = Finite 0"
| "np_div (Finite x) NegInf = Finite 0"
| "np_div PosInf (Finite y) = (if y \<ge> 0 then PosInf else NegInf)"
| "np_div NegInf (Finite y) = (if y \<ge> 0 then NegInf else PosInf)"
| "np_div PosInf PosInf = NaN"
| "np_div PosInf NegInf = NaN"
| "np_div NegInf PosInf = NaN"
| "np_div NegInf NegInf = NaN"

fun np_greater :: "npfloat \<Rightarrow> npfloat \<Rightarrow> bool" where
  "np_greater NaN y = False"
| "np_greater x NaN = False"
| "np_greater (Finite x) (Finite y) = (x > y)"
| "np_greater (Finite x) PosInf = False"
| "np_greater (Finite x) NegInf = True"
| "np_greater PosInf (Finite y) = True"
| "np_greater PosInf NegInf = True"
| "np_greater PosInf PosInf = False"
| "np_greater NegInf y = False"

definition odds_ratio :: "table \<Rightarrow> npfloat" where
  "odds_ratio t =
     np_div (np_div (Finite (real_of_int (cell_a t))) (Finite (real_of_int (cell_c t))))
            (np_div (Finite (real_of_int (cell_b t))) (Finite (real_of_int (cell_d t))))"

text \<open>
  Lines 263-268 for one table. \<^verbatim>\<open>chi2_contingency\<close> is scipy's: it returns the
  chi-squared statistic of the table, which is not negative, or raises; it is a
  parameter of the model.
\<close>

definition chi2_z :: "(table \<Rightarrow> error + real) \<Rightarrow> table \<Rightarrow> error + real" where
  "chi2_z chi2_contingency t =
     (case chi2_contingency t of
        Inl e \<Rightarrow> Inl e
      | Inr statistic \<Rightarrow>
          (let z_abs = sqrt statistic;
               o_r = odds_ratio t
           in if np_greater o_r (Finite 1) then Inr z_abs else Inr (- z_abs)))"

section \<open>Properties\<close>

lemma a2_count_eq: "a2_count rows j = 2 * int (length rows) - a1_count rows j"
  by (induction rows) (simp_all add: a2_count_def a1_count_def)

lemma chi2_table_rows:
  "cell_a (chi2_table n X_case X_ctrl j) + cell_b (chi2_table n X_case X_ctrl j) = 2 * int n"
  "cell_c (chi2_table n X_case X_ctrl j) + cell_d (chi2_table n X_case X_ctrl j) = 2 * int n"
  by (simp_all add: chi2_table_def Let_def)

text \<open>
  Claim C1. The table is meant to hold the A1 and A2 allele counts of the cases and of
  the controls, so that each row adds up to the alleles of its group, \<open>2 * n_case\<close>.
  With \<open>n_gwa = 4\<close> (two cases, two controls), case dosages 1 and 2 and control dosages
  0 and 1 at the SNP, the cases carry 3 copies of A1 and 1 of A2, the controls 1 and 3.
  The code's table is \<open>(3, 5, 1, 7)\<close>: cells \<open>b\<close> and \<open>d\<close> are computed from
  \<open>n_gwa * 2\<close> and exceed the A2 counts by \<open>n_gwa\<close>, and each row adds up to 8, not 4.
\<close>

theorem chi2_table_not_allele_counts:
  "chi2_table 4 [[1], [2]] [[0], [1]] 0 = \<lparr>cell_a = 3, cell_b = 5, cell_c = 1, cell_d = 7\<rparr>
   \<and> a1_count [[1], [2]] 0 = 3 \<and> a2_count [[1], [2]] 0 = 1
   \<and> a1_count [[0], [1]] 0 = 1 \<and> a2_count [[0], [1]] 0 = 3
   \<and> cell_a (chi2_table 4 [[1], [2]] [[0], [1]] 0) + cell_b (chi2_table 4 [[1], [2]] [[0], [1]] 0)
       = 8
   \<and> 2 * int (n_case 4) = 4"
  by (simp add: chi2_table_def col_sum_def a1_count_def a2_count_def n_case_def)

subsection \<open>The accumulation loop\<close>


lemma length_rows_at [simp]: "length (rows_at X idx) = length idx"
  by (simp add: rows_at_def)






lemma accumulate_rounds:
  "accumulate keys tot draws r st = Some st' \<Longrightarrow>
     \<exists>n. st' = rounds keys tot draws r n st \<and> (\<forall>k \<in> set keys. tot \<le> n_collected st' k)"
proof (induction keys tot draws r st st'
    rule: accumulate.raw_induct [rotated 1, consumes 1, case_names unfold])
  case (unfold accumulate' keys tot draws r st st')
  show ?case
  proof (cases "\<exists>k \<in> set keys. n_collected st k < tot")
    case True
    with unfold(2)
    have call: "accumulate' keys tot draws (Suc r) (sampling_round keys tot (draws r) st) = Some st'"
      by simp
    from unfold(1) [OF call] obtain n where
      "st' = rounds keys tot draws (Suc r) n (sampling_round keys tot (draws r) st)"
      "\<forall>k \<in> set keys. tot \<le> n_collected st' k" by blast
    then have "st' = rounds keys tot draws r (Suc n) st \<and> (\<forall>k \<in> set keys. tot \<le> n_collected st' k)"
      by simp
    then show ?thesis by blast
  next
    case False
    with unfold(2) have "st' = st" by simp
    with False have "st' = rounds keys tot draws r 0 st \<and> (\<forall>k \<in> set keys. tot \<le> n_collected st' k)"
      by (auto simp: not_less)
    then show ?thesis by blast
  qed
qed

lemma reshape_Inr:
  assumes len: "length xs = n * k"
  shows "\<exists>blocks. reshape n k xs = Inr blocks \<and> length blocks = n \<and> (\<forall>b \<in> set blocks. length b = k)"
proof -
  have "length (take k (drop (i * k) xs)) = k" if "i < n" for i
  proof -
    from that have "Suc i \<le> n" by simp
    then have "Suc i * k \<le> n * k" by (rule mult_le_mono1)
    with len show ?thesis by simp
  qed
  with len show ?thesis by (auto simp: reshape_def)
qed

lemma reshape_Inl: "length xs \<noteq> n * k \<Longrightarrow> reshape n k xs = Inl ValueError"
  by (simp add: reshape_def)

lemma reshape_blocks:
  "reshape n k xs = Inr blocks \<Longrightarrow> length blocks = n \<and> (\<forall>b \<in> set blocks. length b = k)"
  using reshape_Inr [of xs n k] by (cases "length xs = n * k") (auto simp: reshape_Inl)





lemma accumulate_returns:
  "(\<forall>k \<in> set keys. tot \<le> n_collected (rounds keys tot draws r n st) k) \<Longrightarrow>
     \<exists>st'. accumulate keys tot draws r st = Some st'"
proof (induction n arbitrary: r st)
  case 0
  then show ?case by (subst accumulate.simps) (auto simp: not_less)
next
  case (Suc n)
  show ?case
  proof (cases "\<exists>k \<in> set keys. n_collected st k < tot")
    case True
    from Suc.IH [of "Suc r" "sampling_round keys tot (draws r) st"] Suc.prems
    obtain st' where "accumulate keys tot draws (Suc r) (sampling_round keys tot (draws r) st) = Some st'"
      by auto
    with True show ?thesis by (subst accumulate.simps) simp
  next
    case False
    then show ?thesis by (subst accumulate.simps) simp
  qed
qed





subsection \<open>Combinations that have reached the target\<close>

lemma collect_batch_frame:
  "tot \<le> n_collected st k \<Longrightarrow>
     n_collected (collect_batch tot dr k' st) k = n_collected st k
   \<and> X_case_dict (collect_batch tot dr k' st) k = X_case_dict st k
   \<and> X_ctrl_dict (collect_batch tot dr k' st) k = X_ctrl_dict st k"
  by (auto simp: collect_batch_def Let_def)

text \<open>
  Claim C10. A round of the oversampling loop leaves a combination that has reached
  \<open>tot_n_case\<close> as it is: its counter, its list of case batches and its list of control
  batches are unchanged.
\<close>

theorem sampling_round_frame:
  "tot \<le> n_collected st k \<Longrightarrow>
     n_collected (sampling_round keys tot dr st) k = n_collected st k
   \<and> X_case_dict (sampling_round keys tot dr st) k = X_case_dict st k
   \<and> X_ctrl_dict (sampling_round keys tot dr st) k = X_ctrl_dict st k"
  unfolding sampling_round_def
proof (induction keys arbitrary: st)
  case Nil
  then show ?case by simp
next
  case (Cons k' keys)
  from Cons.prems have *: "tot \<le> n_collected (collect_batch tot dr k' st) k"
    by (simp add: collect_batch_frame)
  show ?case using Cons.IH [OF *] Cons.prems by (simp add: collect_batch_frame)
qed

theorem sampling_round_frame_witness:
  "tot_n_case 4 1 \<le> n_collected two_start (''0.3'', ''0.5'')
   \<and> n_collected (sampling_round two_keys (tot_n_case 4 1) (pool_draws 0) two_start) (''0.3'', ''0.5'')
       = n_collected two_start (''0.3'', ''0.5'')
   \<and> X_case_dict (sampling_round two_keys (tot_n_case 4 1) (pool_draws 0) two_start) (''0.3'', ''0.5'')
       = [[[0], [1]]]
   \<and> X_ctrl_dict (sampling_round two_keys (tot_n_case 4 1) (pool_draws 0) two_start) (''0.3'', ''0.5'')
       = [[[2], [1]]]
   \<and> map length (X_case_dict (sampling_round two_keys (tot_n_case 4 1) (pool_draws 0) two_start)
        (''0.1'', ''0.5'')) = [0, 6]"
proof -
  have vals: "n_collected two_start (''0.3'', ''0.5'') = 2"
    "X_case_dict two_start (''0.3'', ''0.5'') = [[[0], [1]]]"
    "X_ctrl_dict two_start (''0.3'', ''0.5'') = [[[2], [1]]]"
    "tot_n_case 4 1 = 2"
    by (simp_all add: two_start_def two_keys_def two_y0_def combinations_def realize_def
        collect_pop0_def empty_acc_def i_case_def i_ctrl_def rows_at_def Let_def upt_conv_Cons
        tot_n_case_def n_case_def)
  then have h: "tot_n_case 4 1 \<le> n_collected two_start (''0.3'', ''0.5'')" by simp
  have other: "map length (X_case_dict (sampling_round two_keys (tot_n_case 4 1) (pool_draws 0) two_start)
        (''0.1'', ''0.5'')) = [0, 6]"
    by (simp add: two_start_def two_keys_def two_y0_def combinations_def realize_def
        collect_pop0_def empty_acc_def i_case_def i_ctrl_def rows_at_def Let_def upt_conv_Cons
        tot_n_case_def n_case_def sampling_round_def collect_batch_def pool_draws_def)
  from sampling_round_frame [OF h, of two_keys "pool_draws 0"] h vals other
  show ?thesis by simp
qed

subsection \<open>Sample size and the N column\<close>

lemma set_sumstat_N: "s \<in> set (sumstat norm_sf n_gwa plink_bim_i z) \<Longrightarrow> col_N s = n_gwa"
  by (auto simp: sumstat_def set_zip)

lemma size_column_written:
  "(p, f) \<in> set (write_sumstats norm_sf n_gwa n_rep plink_bim_i zr stem) \<Longrightarrow>
     v \<in> set (size_column f) \<Longrightarrow> v = n_gwa"
  by (auto simp: write_sumstats_def Let_def to_ldak_def dest: set_sumstat_N)

lemma divide_lengths:
  assumes "divide n_rep n_cs st k = Inr (X_case, X_ctrl, X_gwa)"
  shows "length X_gwa = n_rep \<and> (\<forall>s \<in> set X_gwa. length s = 2 * n_cs)"
proof -
  from assms obtain
    c: "reshape n_rep n_cs (take (n_cs * n_rep) (concat (X_case_dict st k))) = Inr X_case"
    and t: "reshape n_rep n_cs (take (n_cs * n_rep) (concat (X_ctrl_dict st k))) = Inr X_ctrl"
    and g: "X_gwa = map2 (@) X_case X_ctrl"
    by (auto simp: divide_def split: sum.splits)
  from reshape_blocks [OF c] reshape_blocks [OF t] g show ?thesis
    by (auto simp: set_zip)
qed

text \<open>
  Claim C9. When \<open>n_gwa\<close> is odd, every replicate's sample of a combination has
  \<open>n_gwa div 2\<close> cases and as many controls, \<open>n_gwa - 1\<close> individuals in all, while the
  sample-size column of every summary-statistic file holds \<open>n_gwa\<close> in every row.
\<close>

theorem odd_n_gwa_sample_size:
  assumes "odd n_gwa"
    and "divide n_rep (n_case n_gwa) st k = Inr (X_case, X_ctrl, X_gwa)"
  shows "length X_gwa = n_rep
    \<and> (\<forall>s \<in> set X_gwa. length s = 2 * (n_gwa div 2) \<and> length s = n_gwa - 1)
    \<and> (\<forall>c \<in> set X_case. length c = n_gwa div 2) \<and> (\<forall>c \<in> set X_ctrl. length c = n_gwa div 2)
    \<and> (\<forall>(p, f) \<in> set (write_sumstats norm_sf n_gwa n_rep plink_bim_i zr stem).
          \<forall>v \<in> set (size_column f). v = n_gwa)
    \<and> (\<forall>jr < n_rep. ((jr, stem, ''.sumstat.gz''), Sumstat (sumstat norm_sf n_gwa plink_bim_i (zr ! jr)))
          \<in> set (write_sumstats norm_sf n_gwa n_rep plink_bim_i zr stem))"
proof -
  from assms(1) have odd: "2 * (n_gwa div 2) = n_gwa - 1"
    by (auto elim: oddE)
  from assms(2) have blocks:
    "(\<forall>c \<in> set X_case. length c = n_gwa div 2) \<and> (\<forall>c \<in> set X_ctrl. length c = n_gwa div 2)"
    by (auto simp: divide_def n_case_def split: sum.splits dest: reshape_blocks)
  have files: "\<forall>(p, f) \<in> set (write_sumstats norm_sf n_gwa n_rep plink_bim_i zr stem).
          \<forall>v \<in> set (size_column f). v = n_gwa"
    using size_column_written by fast
  have written: "\<forall>jr < n_rep. ((jr, stem, ''.sumstat.gz''), Sumstat (sumstat norm_sf n_gwa plink_bim_i (zr ! jr)))
          \<in> set (write_sumstats norm_sf n_gwa n_rep plink_bim_i zr stem)"
    by (auto simp: write_sumstats_def Let_def)
  from divide_lengths [OF assms(2)] odd blocks files written show ?thesis
    by (simp add: n_case_def)
qed

theorem odd_n_gwa_sample_size_witness:
  "odd (3 :: nat)
   \<and> divide 1 (n_case 3) odd_start (''0.1'', ''0.5'') = Inr ([[[1]]], [[[0]]], [[[1], [0]]])
   \<and> map length [[[1], [0 :: dosage]]] = [3 - 1]
   \<and> size_column (Sumstat (sumstat (\<lambda>x. 1 / (1 + x)) 3 odd_bim [2, - 1])) = [3, 3]"
proof -
  have d: "divide 1 (n_case 3) odd_start (''0.1'', ''0.5'') = Inr ([[[1]]], [[[0]]], [[[1], [0]]])"
    by (simp add: odd_start_def odd_y0_def pool_keys_def combinations_def realize_def
        collect_pop0_def empty_acc_def i_case_def i_ctrl_def rows_at_def Let_def upt_conv_Cons
        divide_def reshape_def n_case_def)
  have o: "odd (3 :: nat)" by simp
  have n: "size_column (Sumstat (sumstat (\<lambda>x. 1 / (1 + x)) 3 odd_bim [2, - 1])) = [3, 3]"
    by (simp add: sumstat_def odd_bim_def)
  from odd_n_gwa_sample_size [OF o d] d o n show ?thesis by simp
qed

subsection \<open>Genes without SNPs\<close>

lemma pool_map_nth:
  "pool_map f xs = Inr vs \<Longrightarrow> length vs = length xs \<and> (\<forall>i < length xs. f (xs ! i) = Inr (vs ! i))"
proof (induction xs arbitrary: vs)
  case Nil
  then show ?case by simp
next
  case (Cons x xs)
  from Cons.prems obtain v vs' where v: "f x = Inr v" and vs': "pool_map f xs = Inr vs'"
    and vs: "vs = v # vs'"
    by (auto split: sum.splits)
  from Cons.IH [OF vs'] v vs show ?case
    by (auto simp: nth_Cons split: nat.splits)
qed

lemma snp_idx_other_chr:
  "\<forall>b \<in> set plink_bim. bim_CHR b \<noteq> region_CHR reg \<Longrightarrow> snp_idx plink_bim reg = []"
  by (auto simp: snp_idx_def filter_empty_conv)

text \<open>
  Claim C8. For a gene of the region table with no retained SNP in its region,
  \<^verbatim>\<open>hapsim_one_gene\<close> raises nothing, logs the skip and returns 0 without running any of
  the work for a gene with SNPs, whatever that work would do; the table of SNP counts
  then lists the gene with count 0. A region on a chromosome that the panel lacks is
  such a region.
\<close>

theorem empty_region_skipped:
  assumes reg: "region gene = Some reg"
    and empty: "snp_idx plink_bim reg = []"
  shows "hapsim_one_gene region plink_bim simulate gene
           = Inr ([Importr ''hapsim'', Log_info (''Skipped 0 SNPs in '' @ gene @ ''.'')], 0)
    \<and> (gene \<in> set gene_list \<and> snp_counts region plink_bim simulate gene_list = Inr counts
         \<longrightarrow> (gene, 0) \<in> set counts)
    \<and> ((\<forall>b \<in> set bim. bim_CHR b \<noteq> region_CHR reg) \<longrightarrow> snp_idx bim reg = [])"
proof -
  have one: "hapsim_one_gene region plink_bim simulate gene
           = Inr ([Importr ''hapsim'', Log_info (''Skipped 0 SNPs in '' @ gene @ ''.'')], 0)"
    using reg empty by (simp add: hapsim_one_gene_def)
  have "(gene, 0) \<in> set counts"
    if mem: "gene \<in> set gene_list"
      and tab: "snp_counts region plink_bim simulate gene_list = Inr counts"
  proof -
    from tab obtain results where
      res: "pool_map (hapsim_one_gene region plink_bim simulate) gene_list = Inr results"
      and counts: "counts = zip gene_list (map snd results)"
      by (auto simp: snp_counts_def split: sum.splits)
    from mem obtain i where i: "i < length gene_list" "gene_list ! i = gene"
      by (auto simp: in_set_conv_nth)
    from pool_map_nth [OF res] i one have "length results = length gene_list"
      and "results ! i = ([Importr ''hapsim'', Log_info (''Skipped 0 SNPs in '' @ gene @ ''.'')], 0)"
      by auto
    with i counts show ?thesis
      by (auto simp: set_zip intro!: exI [of _ i])
  qed
  with one snp_idx_other_chr [of bim reg] show ?thesis by blast
qed

theorem empty_region_skipped_witness:
  "some_region ''G7'' = Some \<lparr>region_CHR = ''7'', region_START = 1, region_END = 1000\<rparr>
   \<and> snp_idx odd_bim \<lparr>region_CHR = ''7'', region_START = 1, region_END = 1000\<rparr> = []
   \<and> hapsim_one_gene some_region odd_bim some_simulate ''G7''
       = Inr ([Importr ''hapsim'', Log_info ''Skipped 0 SNPs in G7.''], 0)
   \<and> snp_counts some_region odd_bim some_simulate [''G1'', ''G7''] = Inr [(''G1'', 1), (''G7'', 0)]"
proof -
  have r: "some_region ''G7'' = Some \<lparr>region_CHR = ''7'', region_START = 1, region_END = 1000\<rparr>"
    by (simp add: some_region_def)
  have e: "snp_idx odd_bim \<lparr>region_CHR = ''7'', region_START = 1, region_END = 1000\<rparr> = []"
    by (simp add: snp_idx_def odd_bim_def upt_conv_Cons)
  have t: "snp_counts some_region odd_bim some_simulate [''G1'', ''G7''] = Inr [(''G1'', 1), (''G7'', 0)]"
    by (simp add: snp_counts_def hapsim_one_gene_def some_region_def snp_idx_def odd_bim_def
        some_simulate_def upt_conv_Cons)
  from empty_region_skipped [where region = some_region and gene = "''G7''"
      and simulate = some_simulate, OF r e] r e t
  show ?thesis by simp
qed

subsection \<open>The frequency filter\<close>

lemma masked_map: "masked (map P xs) xs = filter P xs"
  unfolding masked_def by (induction xs) simp_all

lemma masked_map2:
  "length xs = length ys \<Longrightarrow> masked (map P xs) ys = map snd (filter (\<lambda>(x, y). P x) (zip xs ys))"
  unfolding masked_def by (induction xs ys rule: list_induct2) simp_all

lemma filter_zip_fst:
  "length xs = length ys \<Longrightarrow> map fst (filter (\<lambda>(x, y). P x) (zip xs ys)) = filter P xs"
  by (induction xs ys rule: list_induct2) simp_all

lemma in_band_iff:
  "in_band fl maf_min (column_mean fl col) \<longleftrightarrow>
     col \<noteq> [] \<and> maf_min < fl (exact_frq col) \<and> fl (exact_frq col) < fl (1 - maf_min)"
  by (simp add: in_band_def column_mean_def)

lemma in_band_exact:
  assumes mono: "mono fl" and maf: "fl maf_min = maf_min"
    and band: "in_band fl maf_min (column_mean fl col)"
  shows "maf_min < exact_frq col \<and> exact_frq col < 1 - maf_min"
proof -
  from band have lo: "maf_min < fl (exact_frq col)"
    and hi: "fl (exact_frq col) < fl (1 - maf_min)"
    by (simp_all add: in_band_iff)
  have "maf_min < exact_frq col"
  proof (rule ccontr)
    assume "\<not> maf_min < exact_frq col"
    then have "exact_frq col \<le> maf_min" by simp
    with mono have "fl (exact_frq col) \<le> fl maf_min" by (rule monoD)
    with lo maf show False by simp
  qed
  moreover have "exact_frq col < 1 - maf_min"
  proof (rule ccontr)
    assume "\<not> exact_frq col < 1 - maf_min"
    then have "1 - maf_min \<le> exact_frq col" by simp
    with mono have "fl (1 - maf_min) \<le> fl (exact_frq col)" by (rule monoD)
    with hi show False by simp
  qed
  ultimately show ?thesis ..
qed

text \<open>
  Claim C6. The filter keeps, in order, exactly the SNPs whose computed allele frequency
  is greater than \<open>maf_min\<close> and less than the computed \<open>1 - maf_min\<close>: the retained
  columns of the haplotype matrix and the retained rows of the annotation table are those
  of the same SNPs, and the retained frequencies are those of the retained columns.
  Since rounding is monotone and \<open>maf_min\<close> is a \<^verbatim>\<open>float64\<close>, the exact allele frequency
  of every retained SNP, the mean of its column, is greater than \<open>maf_min\<close> and less than
  \<open>1 - maf_min\<close>, and a SNP whose exact frequency is outside that open band is dropped
  from the haplotype matrix and from the annotation table.
\<close>

theorem maf_filter_band:
  assumes len: "length ref_haplo = length vcf"
    and mono: "mono fl" and maf: "fl maf_min = maf_min"
  shows "panel_haplo (maf_filter fl maf_min vcf ref_haplo)
        = map fst (filter (\<lambda>(col, row). in_band fl maf_min (column_mean fl col)) (zip ref_haplo vcf))
    \<and> panel_bim (maf_filter fl maf_min vcf ref_haplo)
        = map (to_bim \<circ> snd)
            (filter (\<lambda>(col, row). in_band fl maf_min (column_mean fl col)) (zip ref_haplo vcf))
    \<and> panel_frq (maf_filter fl maf_min vcf ref_haplo)
        = map (column_mean fl) (panel_haplo (maf_filter fl maf_min vcf ref_haplo))
    \<and> (\<forall>col. in_band fl maf_min (column_mean fl col) \<longleftrightarrow>
          col \<noteq> [] \<and> maf_min < fl (exact_frq col) \<and> fl (exact_frq col) < fl (1 - maf_min))
    \<and> (\<forall>col \<in> set (panel_haplo (maf_filter fl maf_min vcf ref_haplo)).
          col \<noteq> [] \<and> maf_min < fl (exact_frq col) \<and> fl (exact_frq col) < fl (1 - maf_min)
          \<and> maf_min < exact_frq col \<and> exact_frq col < 1 - maf_min)
    \<and> (\<forall>j < length vcf.
          ref_haplo ! j = [] \<or> exact_frq (ref_haplo ! j) \<le> maf_min
            \<or> 1 - maf_min \<le> exact_frq (ref_haplo ! j) \<longrightarrow>
          (ref_haplo ! j, vcf ! j) \<notin>
            set (filter (\<lambda>(col, row). in_band fl maf_min (column_mean fl col)) (zip ref_haplo vcf)))"
proof -
  let ?P = "\<lambda>col. in_band fl maf_min (column_mean fl col)"
  let ?p = "maf_filter fl maf_min vcf ref_haplo"
  have ext: "map (in_band fl maf_min) (map (column_mean fl) ref_haplo) = map ?P ref_haplo"
    by simp
  have "panel_haplo ?p = masked (map ?P ref_haplo) ref_haplo"
    unfolding maf_filter_def Let_def ext by simp
  then have haplo: "panel_haplo ?p = filter ?P ref_haplo"
    by (simp only: masked_map)
  have "panel_frq ?p
      = masked (map (in_band fl maf_min) (map (column_mean fl) ref_haplo))
          (map (column_mean fl) ref_haplo)"
    unfolding maf_filter_def Let_def by simp
  also have "\<dots> = filter (in_band fl maf_min) (map (column_mean fl) ref_haplo)"
    by (rule masked_map)
  also have "\<dots> = map (column_mean fl) (filter ?P ref_haplo)"
    by (simp only: filter_map comp_def)
  finally have frq: "panel_frq ?p = map (column_mean fl) (panel_haplo ?p)"
    by (simp only: haplo)
  have "panel_bim ?p = map to_bim (masked (map ?P ref_haplo) vcf)"
    unfolding maf_filter_def Let_def ext by simp
  then have bim: "panel_bim ?p
      = map (to_bim \<circ> snd) (filter (\<lambda>(col, row). ?P col) (zip ref_haplo vcf))"
    by (simp only: masked_map2 [OF len] map_map)
  have haplo': "panel_haplo ?p = map fst (filter (\<lambda>(col, row). ?P col) (zip ref_haplo vcf))"
    by (simp only: haplo filter_zip_fst [OF len])
  have iff: "\<forall>col. in_band fl maf_min (column_mean fl col) \<longleftrightarrow>
          col \<noteq> [] \<and> maf_min < fl (exact_frq col) \<and> fl (exact_frq col) < fl (1 - maf_min)"
    using in_band_iff by blast
  have band: "\<forall>col \<in> set (panel_haplo ?p).
      col \<noteq> [] \<and> maf_min < fl (exact_frq col) \<and> fl (exact_frq col) < fl (1 - maf_min)
      \<and> maf_min < exact_frq col \<and> exact_frq col < 1 - maf_min"
  proof
    fix col assume "col \<in> set (panel_haplo ?p)"
    then have P: "?P col" unfolding haplo by simp
    from P in_band_exact [OF mono maf P]
    show "col \<noteq> [] \<and> maf_min < fl (exact_frq col) \<and> fl (exact_frq col) < fl (1 - maf_min)
      \<and> maf_min < exact_frq col \<and> exact_frq col < 1 - maf_min"
      by (simp only: in_band_iff) blast
  qed
  have out: "\<forall>j < length vcf.
      ref_haplo ! j = [] \<or> exact_frq (ref_haplo ! j) \<le> maf_min
        \<or> 1 - maf_min \<le> exact_frq (ref_haplo ! j) \<longrightarrow>
      (ref_haplo ! j, vcf ! j) \<notin> set (filter (\<lambda>(col, row). ?P col) (zip ref_haplo vcf))"
  proof (intro allI impI)
    fix j
    assume "j < length vcf"
      and o: "ref_haplo ! j = [] \<or> exact_frq (ref_haplo ! j) \<le> maf_min
        \<or> 1 - maf_min \<le> exact_frq (ref_haplo ! j)"
    have "\<not> ?P (ref_haplo ! j)"
    proof
      assume P: "?P (ref_haplo ! j)"
      then have "ref_haplo ! j \<noteq> []" using in_band_iff by blast
      with in_band_exact [OF mono maf P] o show False by simp
    qed
    then show "(ref_haplo ! j, vcf ! j) \<notin> set (filter (\<lambda>(col, row). ?P col) (zip ref_haplo vcf))"
      by simp
  qed
  from haplo' bim frq iff band out show ?thesis
    by (intro conjI)
qed

theorem maf_filter_band_witness:
  "length small_haplo = length small_vcf
   \<and> panel_haplo (maf_filter (\<lambda>x. x) (1 / 8) small_vcf small_haplo) = [[0, 1, 1, 0], [1, 0, 0, 0]]
   \<and> map bim_SNP (panel_bim (maf_filter (\<lambda>x. x) (1 / 8) small_vcf small_haplo)) = [''rs1'', ''rs3'']
   \<and> panel_frq (maf_filter (\<lambda>x. x) (1 / 8) small_vcf small_haplo) = [Some (1 / 2), Some (1 / 4)]
   \<and> exact_frq [0, 0, 0, 0] \<le> 1 / 8"
proof -
  have len: "length small_haplo = length small_vcf"
    by (simp add: small_haplo_def small_vcf_def)
  have mono: "mono (\<lambda>x :: real. x)" by (rule monoI) simp
  have maf: "(\<lambda>x :: real. x) (1 / 8) = 1 / 8" by simp
  have vals: "panel_haplo (maf_filter (\<lambda>x. x) (1 / 8) small_vcf small_haplo)
       = [[0, 1, 1, 0], [1, 0, 0, 0]]"
    "map bim_SNP (panel_bim (maf_filter (\<lambda>x. x) (1 / 8) small_vcf small_haplo)) = [''rs1'', ''rs3'']"
    "panel_frq (maf_filter (\<lambda>x. x) (1 / 8) small_vcf small_haplo) = [Some (1 / 2), Some (1 / 4)]"
    "exact_frq [0, 0, 0, 0] \<le> 1 / 8"
    by (simp_all add: maf_filter_def small_vcf_def small_haplo_def masked_def column_mean_def
        in_band_def to_bim_def exact_frq_def)
  from maf_filter_band [OF len mono maf] len vals show ?thesis by simp
qed

subsection \<open>The dosage sampler\<close>

lemma haplotype_calls_01:
  assumes "row \<in> set (haplotype_calls percent_point Xh)" and "x \<in> set row"
  shows "x = 0 \<or> x = 1"
proof -
  from assms(1) obtain r where
    "row = map (\<lambda>(x, q). if x < q then 1 else 0) (zip r percent_point)"
    by (auto simp: haplotype_calls_def)
  with assms(2) obtain x0 q where "x = (if (x0 :: real) < q then 1 else 0)"
    by auto
  then show ?thesis by (cases "x0 < q") simp_all
qed

lemma sum_calls:
  "(a :: dosage) \<in> {0, 1} \<Longrightarrow> b \<in> {0, 1} \<Longrightarrow> a + b \<in> {0, 1, 2} \<and> sint (a + b) \<in> {0, 1, 2}"
  by auto

lemma sample_once_rows:
  assumes "row \<in> set (sample_once percent_point (X0, X1))"
  shows "\<exists>r0 r1. r0 \<in> set (haplotype_calls percent_point X0)
      \<and> r1 \<in> set (haplotype_calls percent_point X1) \<and> row = map2 (+) r0 r1"
proof -
  from assms have "row \<in> (\<lambda>(r0, r1). map2 (+) r0 r1) `
      set (zip (haplotype_calls percent_point X0) (haplotype_calls percent_point X1))"
    by (simp add: sample_once_def)
  then obtain r0 r1 where
    "(r0, r1) \<in> set (zip (haplotype_calls percent_point X0) (haplotype_calls percent_point X1))"
    "row = map2 (+) r0 r1"
    by auto
  then show ?thesis by (blast dest: set_zip_leftD set_zip_rightD)
qed

lemma sample_once_range:
  assumes "row \<in> set (sample_once percent_point (X0, X1))" and "x \<in> set row"
  shows "x \<in> {0, 1, 2} \<and> sint x \<in> {0, 1, 2}"
proof -
  from sample_once_rows [OF assms(1)] obtain r0 r1 where
    r: "r0 \<in> set (haplotype_calls percent_point X0)"
       "r1 \<in> set (haplotype_calls percent_point X1)" "row = map2 (+) r0 r1"
    by blast
  from assms(2) r(3) have "x \<in> (\<lambda>(a, b). a + b) ` set (zip r0 r1)" by simp
  then obtain a b where ab: "(a, b) \<in> set (zip r0 r1)" "x = a + b" by auto
  then have "a \<in> set r0" "b \<in> set r1"
    by (blast dest: set_zip_leftD set_zip_rightD)+
  with r have "a \<in> {0, 1}" "b \<in> {0, 1}"
    using haplotype_calls_01 by blast+
  with ab(2) show ?thesis using sum_calls by blast
qed

lemma length_haplotype_calls: "length (haplotype_calls percent_point Xh) = length Xh"
  by (simp add: haplotype_calls_def)

lemma nth_haplotype_calls:
  assumes "i < length Xh" and "length (Xh ! i) = length percent_point" and "j < length percent_point"
  shows "length (haplotype_calls percent_point Xh ! i) = length percent_point"
    and "haplotype_calls percent_point Xh ! i ! j = (if Xh ! i ! j < percent_point ! j then 1 else 0)"
  using assms by (simp_all add: haplotype_calls_def)

lemma length_nth_haplotype_calls:
  assumes "i < length Xh" and "length (Xh ! i) = length percent_point"
  shows "length (haplotype_calls percent_point Xh ! i) = length percent_point"
  using assms by (simp add: haplotype_calls_def)

lemma sample_once_shape:
  assumes len: "length X0 = n" "length X1 = n"
    and rows: "\<forall>row \<in> set X0 \<union> set X1. length row = length percent_point"
  shows "length (sample_once percent_point (X0, X1)) = n"
    and "i < n \<Longrightarrow> length (sample_once percent_point (X0, X1) ! i) = length percent_point"
    and "i < n \<Longrightarrow> j < length percent_point \<Longrightarrow>
          sample_once percent_point (X0, X1) ! i ! j
            = (if X0 ! i ! j < percent_point ! j then 1 else 0)
              + (if X1 ! i ! j < percent_point ! j then 1 else 0)"
proof -
  show "length (sample_once percent_point (X0, X1)) = n"
    using len by (simp add: sample_once_def length_haplotype_calls)
  assume i: "i < n"
  with len rows have r: "length (X0 ! i) = length percent_point"
    "length (X1 ! i) = length percent_point"
    by simp_all
  from i len have nth: "sample_once percent_point (X0, X1) ! i
      = map2 (+) (haplotype_calls percent_point X0 ! i) (haplotype_calls percent_point X1 ! i)"
    by (simp add: sample_once_def length_haplotype_calls)
  from i len r have l: "length (haplotype_calls percent_point X0 ! i) = length percent_point"
    "length (haplotype_calls percent_point X1 ! i) = length percent_point"
    by (simp_all add: length_nth_haplotype_calls)
  show "length (sample_once percent_point (X0, X1) ! i) = length percent_point"
    unfolding nth using l by simp
  assume j: "j < length percent_point"
  from i len r j have v:
    "haplotype_calls percent_point X0 ! i ! j = (if X0 ! i ! j < percent_point ! j then 1 else 0)"
    "haplotype_calls percent_point X1 ! i ! j = (if X1 ! i ! j < percent_point ! j then 1 else 0)"
    by (simp_all add: nth_haplotype_calls(2))
  from l j have "map2 (+) (haplotype_calls percent_point X0 ! i) (haplotype_calls percent_point X1 ! i) ! j
      = haplotype_calls percent_point X0 ! i ! j + haplotype_calls percent_point X1 ! i ! j"
    by simp
  then show "sample_once percent_point (X0, X1) ! i ! j
            = (if X0 ! i ! j < percent_point ! j then 1 else 0)
              + (if X1 ! i ! j < percent_point ! j then 1 else 0)"
    unfolding nth by (simp only: v)
qed

text \<open>
  Claim C7. Every entry of a batch of \<^verbatim>\<open>sample_once\<close> is 0, 1 or 2, as an \<^verbatim>\<open>int8\<close>
  and as a number: the batch is the entry-wise sum of the two matrices of haplotype calls,
  whose entries are 0 or 1, and the call of a draw is 1 exactly when the draw is below the
  quantile of its SNP. The draws themselves are the input of the model.
\<close>

theorem sample_once_dosage:
  "(\<forall>row \<in> set (sample_once percent_point (X0, X1)). \<forall>x \<in> set row.
      x \<in> {0, 1, 2} \<and> sint x \<in> {0, 1, 2})
   \<and> (\<forall>row \<in> set (haplotype_calls percent_point X0) \<union> set (haplotype_calls percent_point X1).
        \<forall>x \<in> set row. x \<in> {0, 1})
   \<and> (length X0 = n \<and> length X1 = n
        \<and> (\<forall>row \<in> set X0 \<union> set X1. length row = length percent_point) \<longrightarrow>
        length (sample_once percent_point (X0, X1)) = n
        \<and> (\<forall>i < n. length (sample_once percent_point (X0, X1) ! i) = length percent_point
             \<and> (\<forall>j < length percent_point.
                  sample_once percent_point (X0, X1) ! i ! j
                    = (if X0 ! i ! j < percent_point ! j then 1 else 0)
                      + (if X1 ! i ! j < percent_point ! j then 1 else 0))))"
proof (intro conjI ballI impI allI)
  fix row x
  assume "row \<in> set (sample_once percent_point (X0, X1))" and "x \<in> set row"
  then have "x \<in> {0, 1, 2} \<and> sint x \<in> {0, 1, 2}" by (rule sample_once_range)
  then show "x \<in> {0, 1, 2}" and "sint x \<in> {0, 1, 2}" by blast+
next
  fix row x
  assume "row \<in> set (haplotype_calls percent_point X0) \<union> set (haplotype_calls percent_point X1)"
    and "x \<in> set row"
  then have "x = 0 \<or> x = 1" using haplotype_calls_01 by blast
  then show "x \<in> {0, 1}" by blast
next
  assume a: "length X0 = n \<and> length X1 = n
      \<and> (\<forall>row \<in> set X0 \<union> set X1. length row = length percent_point)"
  then show "length (sample_once percent_point (X0, X1)) = n"
    by (intro sample_once_shape(1)) blast+
  fix i assume i: "i < n"
  from a i show "length (sample_once percent_point (X0, X1) ! i) = length percent_point"
    by (intro sample_once_shape(2) [of X0 n X1]) blast+
  fix j assume j: "j < length percent_point"
  from a i j show "sample_once percent_point (X0, X1) ! i ! j
                    = (if X0 ! i ! j < percent_point ! j then 1 else 0)
                      + (if X1 ! i ! j < percent_point ! j then 1 else 0)"
    by (intro sample_once_shape(3) [of X0 n X1]) blast+
qed

theorem sample_once_dosage_witness:
  "sample_once [0, 1 / 2] ([[- 1, 1]], [[- 2, 0]]) = [[2, 1]]
   \<and> haplotype_calls [0, 1 / 2] [[- 1, 1]] = [[1, 0]]
   \<and> haplotype_calls [0, 1 / 2] [[- 2, 0]] = [[1, 1]]
   \<and> sint (2 :: dosage) \<in> {0, 1, 2}
   \<and> length (sample_once [0, 1 / 2] ([[- 1, 1]], [[- 2, 0]])) = 1"
proof -
  have v: "sample_once [0, 1 / 2] ([[- 1, 1]], [[- 2, 0]]) = [[2, 1]]"
    "haplotype_calls [0, 1 / 2] [[- 1, 1]] = [[1, 0]]"
    "haplotype_calls [0, 1 / 2] [[- 2, 0]] = [[1, 1]]"
    by (simp_all add: sample_once_def haplotype_calls_def)
  from sample_once_dosage [of "[0, 1 / 2]" "[[- 1, 1]]" "[[- 2, 0]]" 1] v
  show ?thesis by simp
qed

subsection \<open>Rescaling the effects\<close>

lemma dot_scale: "dot row (map (\<lambda>b. b * s) beta) = dot row beta * s"
proof (induction row arbitrary: beta)
  case Nil
  then show ?case by (simp add: dot_def)
next
  case (Cons x row)
  then show ?case by (cases beta) (simp_all add: dot_def algebra_simps)
qed

lemma dot_sum:
  assumes "length row = length beta"
  shows "dot row beta = (\<Sum>j < length beta. row ! j * beta ! j)"
proof -
  have "sum_list (map2 (*) row beta) = (\<Sum>j = 0..<length (map2 (*) row beta). map2 (*) row beta ! j)"
    by (rule sum_list_sum_nth)
  also have "\<dots> = (\<Sum>j = 0..<length beta. row ! j * beta ! j)"
    using assms by (intro sum.cong) simp_all
  finally show ?thesis by (simp add: dot_def lessThan_atLeast0)
qed

lemma matvec_entries:
  assumes "\<forall>row \<in> set X. length row = length beta"
  shows "length (matvec X beta) = length X"
    and "i < length X \<Longrightarrow> matvec X beta ! i = (\<Sum>j < length beta. X ! i ! j * beta ! j)"
proof -
  show "length (matvec X beta) = length X" by (simp add: matvec_def)
  assume i: "i < length X"
  with assms have "length (X ! i) = length beta" by simp
  from dot_sum [OF this] i show "matvec X beta ! i = (\<Sum>j < length beta. X ! i ! j * beta ! j)"
    by (simp add: matvec_def)
qed

lemma matvec_scale: "matvec X (map (\<lambda>b. b * s) beta) = map (\<lambda>g. g * s) (matvec X beta)"
  by (simp add: matvec_def dot_scale)

lemma sum_list_scale: "sum_list (map (\<lambda>g. g * s) gs) = sum_list gs * (s :: real)"
  by (induction gs) (simp_all add: algebra_simps)

lemma np_mean_scale: "np_mean (map (\<lambda>g. g * s) gs) = np_mean gs * s"
  by (simp add: np_mean_def sum_list_scale)

lemma np_var_scale: "np_var (map (\<lambda>g. g * s) gs) = np_var gs * s\<^sup>2"
proof -
  have "map (\<lambda>x. (x - np_mean gs * s)\<^sup>2) (map (\<lambda>g. g * s) gs)
      = map (\<lambda>v. v * s\<^sup>2) (map (\<lambda>x. (x - np_mean gs)\<^sup>2) gs)"
    by (simp add: power2_eq_square algebra_simps)
  then show ?thesis
    unfolding np_var_def np_mean_scale by (simp only: np_mean_scale)
qed

lemma np_var_nonneg: "0 \<le> np_var xs"
proof -
  have "0 \<le> sum_list (map (\<lambda>x. (x - np_mean xs)\<^sup>2) xs)"
    by (rule sum_list_nonneg) auto
  then show ?thesis by (simp add: np_var_def np_mean_def)
qed

text \<open>
  Claim C4. The genetic score of an individual of the reference pool is the sum over the
  SNPs of its standardized dosage times the effect. For a heritability that is not
  negative and a raw genetic score of nonzero standard deviation over the reference pool,
  the realized effects are the drawn effects times \<open>sqrt h2g / std (genetic score)\<close>,
  the genetic score of the realized effects is the raw score times that factor, and its
  variance over the reference pool is \<open>h2g\<close> (in real arithmetic).
\<close>

theorem realized_beta_variance:
  assumes h: "0 \<le> h2g" and nz: "np_std (matvec X_pop0_stdz beta) \<noteq> 0"
    and shape: "\<forall>row \<in> set X_pop0_stdz. length row = length beta"
  shows "length (matvec X_pop0_stdz beta) = length X_pop0_stdz
    \<and> (\<forall>i < length X_pop0_stdz.
          matvec X_pop0_stdz beta ! i = (\<Sum>j < length beta. X_pop0_stdz ! i ! j * beta ! j))
    \<and> realized_beta h2g X_pop0_stdz beta
           = map (\<lambda>b. b * (sqrt h2g / np_std (matvec X_pop0_stdz beta))) beta
    \<and> (\<forall>i < length X_pop0_stdz.
          matvec X_pop0_stdz (realized_beta h2g X_pop0_stdz beta) ! i
            = (\<Sum>j < length beta. X_pop0_stdz ! i ! j * beta ! j)
              * (sqrt h2g / np_std (matvec X_pop0_stdz beta)))
    \<and> matvec X_pop0_stdz (realized_beta h2g X_pop0_stdz beta)
           = map (\<lambda>g. g * (sqrt h2g / np_std (matvec X_pop0_stdz beta))) (matvec X_pop0_stdz beta)
    \<and> np_var (matvec X_pop0_stdz (realized_beta h2g X_pop0_stdz beta)) = h2g
    \<and> np_std (matvec X_pop0_stdz (realized_beta h2g X_pop0_stdz beta)) = sqrt h2g"
proof -
  let ?g = "matvec X_pop0_stdz beta"
  let ?s = "sqrt h2g / np_std ?g"
  note ent = matvec_entries [OF shape]
  have e1: "\<forall>i < length X_pop0_stdz. ?g ! i = (\<Sum>j < length beta. X_pop0_stdz ! i ! j * beta ! j)"
    using ent(2) by blast
  have rb: "realized_beta h2g X_pop0_stdz beta = map (\<lambda>b. b * ?s) beta"
    by (simp add: realized_beta_def scale_factor_def)
  have mv: "matvec X_pop0_stdz (realized_beta h2g X_pop0_stdz beta) = map (\<lambda>g. g * ?s) ?g"
    unfolding rb by (rule matvec_scale)
  have e2: "\<forall>i < length X_pop0_stdz.
      matvec X_pop0_stdz (realized_beta h2g X_pop0_stdz beta) ! i
        = (\<Sum>j < length beta. X_pop0_stdz ! i ! j * beta ! j) * ?s"
    unfolding mv using ent by simp
  have v: "(np_std ?g)\<^sup>2 = np_var ?g"
    by (simp add: np_std_def np_var_nonneg)
  from nz have vnz: "np_var ?g \<noteq> 0" by (simp add: np_std_def)
  have "np_var (map (\<lambda>g. g * ?s) ?g) = np_var ?g * ?s\<^sup>2" by (rule np_var_scale)
  also have "\<dots> = np_var ?g * (h2g / np_var ?g)"
    using h by (simp add: power_divide v)
  also have "\<dots> = h2g" using vnz by simp
  finally have var: "np_var (matvec X_pop0_stdz (realized_beta h2g X_pop0_stdz beta)) = h2g"
    unfolding mv .
  then have std: "np_std (matvec X_pop0_stdz (realized_beta h2g X_pop0_stdz beta)) = sqrt h2g"
    by (simp add: np_std_def)
  from ent(1) e1 rb e2 mv var std show ?thesis by (intro conjI)
qed

lemma stdz_score: "matvec [[- 1, 1], [1, - 1]] [2, 1] = [- 1, 1]"
  by (simp add: matvec_def dot_def)

lemma stdz_std: "np_std [- 1, 1] = 1"
  by (simp add: np_std_def np_var_def np_mean_def)

theorem realized_beta_variance_witness:
  "(0 :: real) \<le> 1 / 4
   \<and> matvec [[- 1, 1], [1, - 1]] [2, 1] = [- 1, 1]
   \<and> np_std (matvec [[- 1, 1], [1, - 1]] [2, 1]) = 1
   \<and> realized_beta (1 / 4) [[- 1, 1], [1, - 1]] [2, 1] = [1, 1 / 2]
   \<and> matvec [[- 1, 1], [1, - 1]] (realized_beta (1 / 4) [[- 1, 1], [1, - 1]] [2, 1])
       = [- 1 / 2, 1 / 2]
   \<and> np_var (matvec [[- 1, 1], [1, - 1]] (realized_beta (1 / 4) [[- 1, 1], [1, - 1]] [2, 1]))
       = 1 / 4"
proof -
  have h: "(0 :: real) \<le> 1 / 4" by simp
  have s: "np_std (matvec [[- 1, 1], [1, - 1]] [2, 1]) = 1"
    by (simp only: stdz_score stdz_std)
  then have nz: "np_std (matvec [[- 1, 1], [1, - 1]] [2, 1]) \<noteq> 0" by simp
  have shape: "\<forall>row \<in> set [[- 1, 1], [1, - 1 :: real]]. length row = length [2, 1 :: real]"
    by simp
  have q: "sqrt (1 / 4) = 1 / 2"
    by (simp add: real_sqrt_divide)
  note t = realized_beta_variance [OF h nz shape]
  from t have "realized_beta (1 / 4) [[- 1, 1], [1, - 1]] [2, 1]
      = map (\<lambda>b. b * (sqrt (1 / 4) / np_std (matvec [[- 1, 1], [1, - 1]] [2, 1]))) [2, 1]"
    by blast
  then have rb: "realized_beta (1 / 4) [[- 1, 1], [1, - 1]] [2, 1] = [1, 1 / 2]"
    by (simp add: stdz_score stdz_std q)
  from t have "matvec [[- 1, 1], [1, - 1]] (realized_beta (1 / 4) [[- 1, 1], [1, - 1]] [2, 1])
      = map (\<lambda>g. g * (sqrt (1 / 4) / np_std (matvec [[- 1, 1], [1, - 1]] [2, 1])))
          (matvec [[- 1, 1], [1, - 1]] [2, 1])"
    by blast
  then have mv: "matvec [[- 1, 1], [1, - 1]] (realized_beta (1 / 4) [[- 1, 1], [1, - 1]] [2, 1])
       = [- 1 / 2, 1 / 2]"
    by (simp add: stdz_score stdz_std q)
  from t have var: "np_var (matvec [[- 1, 1], [1, - 1]]
      (realized_beta (1 / 4) [[- 1, 1], [1, - 1]] [2, 1])) = 1 / 4"
    by blast
  from h stdz_score s rb mv var show ?thesis by blast
qed

subsection \<open>The sign of the chi-squared score\<close>

lemma col_sum_nonneg:
  assumes "\<forall>row \<in> set rows. 0 \<le> sint (row ! j)"
  shows "0 \<le> col_sum rows j"
  unfolding col_sum_def using assms by (intro sum_list_nonneg) auto

lemma col_sum_le:
  assumes "\<forall>row \<in> set rows. sint (row ! j) \<le> 2"
  shows "col_sum rows j \<le> 2 * int (length rows)"
  using assms unfolding col_sum_def by (induction rows) auto

lemma chi2_table_nonneg:
  assumes "\<forall>row \<in> set X_case \<union> set X_ctrl. 0 \<le> sint (row ! j) \<and> sint (row ! j) \<le> 2"
    and "length X_case \<le> n_gwa" and "length X_ctrl \<le> n_gwa"
  shows "0 \<le> cell_a (chi2_table n_gwa X_case X_ctrl j)
    \<and> 0 \<le> cell_b (chi2_table n_gwa X_case X_ctrl j)
    \<and> 0 \<le> cell_c (chi2_table n_gwa X_case X_ctrl j)
    \<and> 0 \<le> cell_d (chi2_table n_gwa X_case X_ctrl j)"
proof -
  from assms(1) have "0 \<le> col_sum X_case j" "col_sum X_case j \<le> 2 * int (length X_case)"
    "0 \<le> col_sum X_ctrl j" "col_sum X_ctrl j \<le> 2 * int (length X_ctrl)"
    by (simp_all add: col_sum_nonneg col_sum_le)
  with assms(2,3) show ?thesis by (simp add: chi2_table_def Let_def)
qed

lemma odds_ratio_gt_1:
  assumes "0 \<le> cell_a t" "0 \<le> cell_b t" "0 \<le> cell_c t" "0 \<le> cell_d t"
  shows "np_greater (odds_ratio t) (Finite 1)
     \<longleftrightarrow> np_greater (np_div (Finite (real_of_int (cell_a t))) (Finite (real_of_int (cell_c t))))
                     (np_div (Finite (real_of_int (cell_b t))) (Finite (real_of_int (cell_d t))))"
proof -
  define a where "a = real_of_int (cell_a t)"
  define b where "b = real_of_int (cell_b t)"
  define c where "c = real_of_int (cell_c t)"
  define d where "d = real_of_int (cell_d t)"
  from assms have nn: "0 \<le> a" "0 \<le> b" "0 \<le> c" "0 \<le> d"
    by (simp_all add: a_def b_def c_def d_def)
  have "np_greater (np_div (np_div (Finite a) (Finite c)) (np_div (Finite b) (Finite d))) (Finite 1)
     \<longleftrightarrow> np_greater (np_div (Finite a) (Finite c)) (np_div (Finite b) (Finite d))"
  proof (cases "c = 0")
    case c0: True
    show ?thesis
    proof (cases "d = 0")
      case True
      with c0 nn show ?thesis by auto
    next
      case False
      with c0 nn have "0 \<le> b / d" by simp
      with c0 False nn show ?thesis by auto
    qed
  next
    case cp: False
    with nn have ac: "0 \<le> a / c" by simp
    show ?thesis
    proof (cases "d = 0")
      case True
      with cp nn show ?thesis by auto
    next
      case False
      with nn have dp: "0 < d" by simp
      show ?thesis
      proof (cases "b = 0")
        case True
        with cp False ac show ?thesis by auto
      next
        case False
        with nn dp have "0 < b / d" by simp
        then have "(1 < a / c / (b / d)) = (1 * (b / d) < a / c)"
          by (rule pos_less_divide_eq)
        then have "(1 < a / c / (b / d)) = (b / d < a / c)"
          by (simp only: mult_1)
        with cp dp False show ?thesis
          by (simp del: divide_divide_eq_left divide_divide_eq_right times_divide_eq_left
              times_divide_eq_right times_divide_times_eq)
      qed
    qed
  qed
  then show ?thesis by (simp only: odds_ratio_def a_def b_def c_def d_def)
qed

lemma odds_ratio_real:
  assumes "0 \<le> cell_a t" "0 < cell_b t" "0 < cell_c t" "0 < cell_d t"
  shows "np_greater (odds_ratio t) (Finite 1)
     \<longleftrightarrow> real_of_int (cell_a t) / real_of_int (cell_c t)
           > real_of_int (cell_b t) / real_of_int (cell_d t)"
  using assms by (simp add: odds_ratio_gt_1)

text \<open>
  Claim C3. For a table of counts for which the chi-squared statistic is computed, the
  reported \<open>z\<close> has magnitude \<open>sqrt statistic\<close>; it is \<open>sqrt statistic\<close> when the odds
  ratio \<open>(a / c) / (b / d)\<close> is greater than 1 and \<open>- sqrt statistic\<close> otherwise, so that
  for a nonzero statistic \<open>z\<close> is positive exactly when the odds ratio exceeds 1 (for a
  zero statistic the two branches differ only in the sign of the floating-point zero).
  The odds ratio exceeds 1 exactly when \<open>a / c > b / d\<close>, also when a division by zero
  makes a quotient infinite or undefined.
\<close>

theorem chi2_z_sign:
  assumes stat: "chi2_contingency t = Inr statistic" and nonneg: "0 \<le> statistic"
    and cells: "0 \<le> cell_a t" "0 \<le> cell_b t" "0 \<le> cell_c t" "0 \<le> cell_d t"
  shows "\<exists>z. chi2_z chi2_contingency t = Inr z
      \<and> \<bar>z\<bar> = sqrt statistic
      \<and> z = (if np_greater (odds_ratio t) (Finite 1) then sqrt statistic else - sqrt statistic)
      \<and> (statistic \<noteq> 0 \<longrightarrow> (0 < z \<longleftrightarrow> np_greater (odds_ratio t) (Finite 1)))
      \<and> (np_greater (odds_ratio t) (Finite 1)
           \<longleftrightarrow> np_greater (np_div (Finite (real_of_int (cell_a t))) (Finite (real_of_int (cell_c t))))
                           (np_div (Finite (real_of_int (cell_b t))) (Finite (real_of_int (cell_d t)))))
      \<and> (0 < cell_b t \<and> 0 < cell_c t \<and> 0 < cell_d t \<longrightarrow>
           (np_greater (odds_ratio t) (Finite 1)
             \<longleftrightarrow> real_of_int (cell_a t) / real_of_int (cell_c t)
                   > real_of_int (cell_b t) / real_of_int (cell_d t)))"
proof -
  define z where "z = (if np_greater (odds_ratio t) (Finite 1) then sqrt statistic else - sqrt statistic)"
  from stat have run: "chi2_z chi2_contingency t = Inr z"
    by (simp add: chi2_z_def z_def)
  from nonneg have mag: "\<bar>z\<bar> = sqrt statistic" by (simp add: z_def)
  have sign: "0 < z \<longleftrightarrow> np_greater (odds_ratio t) (Finite 1)" if "statistic \<noteq> 0"
  proof -
    from that nonneg have "0 < sqrt statistic" by simp
    then show ?thesis by (simp add: z_def)
  qed
  have real: "np_greater (odds_ratio t) (Finite 1)
       \<longleftrightarrow> real_of_int (cell_a t) / real_of_int (cell_c t)
             > real_of_int (cell_b t) / real_of_int (cell_d t)"
    if "0 < cell_b t \<and> 0 < cell_c t \<and> 0 < cell_d t"
    using that cells(1) by (intro odds_ratio_real) simp_all
  from run mag sign real odds_ratio_gt_1 [OF cells] z_def show ?thesis
    by blast
qed

theorem chi2_z_sign_witness:
  "chi2_z (\<lambda>t. Inr 4) \<lparr>cell_a = 3, cell_b = 5, cell_c = 1, cell_d = 7\<rparr> = Inr 2
   \<and> chi2_z (\<lambda>t. Inr 4) \<lparr>cell_a = 1, cell_b = 7, cell_c = 3, cell_d = 5\<rparr> = Inr (- 2)
   \<and> chi2_z (\<lambda>t. Inr 4) \<lparr>cell_a = 3, cell_b = 5, cell_c = 0, cell_d = 8\<rparr> = Inr 2"
proof -
  have or1: "np_greater (odds_ratio \<lparr>cell_a = 3, cell_b = 5, cell_c = 1, cell_d = 7\<rparr>) (Finite 1)"
    and or2: "\<not> np_greater (odds_ratio \<lparr>cell_a = 1, cell_b = 7, cell_c = 3, cell_d = 5\<rparr>) (Finite 1)"
    and or3: "np_greater (odds_ratio \<lparr>cell_a = 3, cell_b = 5, cell_c = 0, cell_d = 8\<rparr>) (Finite 1)"
    by (simp_all add: odds_ratio_def)
  have s: "sqrt 4 = 2" by simp
  have st: "(\<lambda>t :: table. Inr 4 :: error + real) u = Inr 4" for u by simp
  from chi2_z_sign [of "\<lambda>t. Inr 4" "\<lparr>cell_a = 3, cell_b = 5, cell_c = 1, cell_d = 7\<rparr>" 4, OF st]
    or1 s
  have 1: "chi2_z (\<lambda>t. Inr 4) \<lparr>cell_a = 3, cell_b = 5, cell_c = 1, cell_d = 7\<rparr> = Inr 2"
    by auto
  have 2: "chi2_z (\<lambda>t. Inr 4) \<lparr>cell_a = 1, cell_b = 7, cell_c = 3, cell_d = 5\<rparr> = Inr (- 2)"
    "chi2_z (\<lambda>t. Inr 4) \<lparr>cell_a = 3, cell_b = 5, cell_c = 0, cell_d = 8\<rparr> = Inr 2"
    using or2 or3 s by (simp_all add: chi2_z_def)
  from 1 2 show ?thesis by simp
qed

subsection \<open>Partitions and the LD pool\<close>

lemma set_i_case: "set (i_case y n) = {i. i < n \<and> y i}"
  by (auto simp: i_case_def)

lemma set_i_ctrl: "set (i_ctrl y n) \<subseteq> {i. i < n \<and> \<not> y i}"
proof -
  have "set (i_ctrl y n) \<subseteq> set (filter (\<lambda>i. \<not> y i) [0..<n])"
    unfolding i_ctrl_def by (rule set_take_subset)
  then show ?thesis by auto
qed

lemma distinct_i_case_i_ctrl: "distinct (i_case y n @ i_ctrl y n)"
proof -
  have "distinct (i_case y n)" by (simp add: i_case_def)
  moreover have "distinct (i_ctrl y n)" by (simp add: i_ctrl_def)
  moreover have "set (i_case y n) \<inter> set (i_ctrl y n) = {}"
    using set_i_ctrl [of y n] by (auto simp: set_i_case)
  ultimately show ?thesis by simp
qed

lemma rows_at_append: "rows_at X (xs @ ys) = rows_at X xs @ rows_at X ys"
  by (simp add: rows_at_def)

lemma set_rows_at: "\<forall>i \<in> set idx. i < length X \<Longrightarrow> set (rows_at X idx) \<subseteq> set X"
  by (auto simp: rows_at_def)

lemma distinct_rows_at:
  assumes "distinct X" and "distinct idx" and "\<forall>i \<in> set idx. i < length X"
  shows "distinct (rows_at X idx)"
proof -
  from assms(1,3) have "inj_on (\<lambda>i. X ! i) (set idx)"
    by (auto simp: inj_on_def nth_eq_iff_index_eq)
  with assms(2) show ?thesis by (simp add: rows_at_def distinct_map)
qed

lemma batch_rows:
  assumes "distinct X"
  shows "distinct (rows_at X (i_case y (length X)) @ rows_at X (i_ctrl y (length X)))"
    and "set (rows_at X (i_case y (length X)) @ rows_at X (i_ctrl y (length X))) \<subseteq> set X"
proof -
  have in_range: "\<forall>i \<in> set (i_case y (length X) @ i_ctrl y (length X)). i < length X"
    using set_i_ctrl [of y "length X"] by (auto simp: set_i_case)
  from distinct_rows_at [OF assms distinct_i_case_i_ctrl in_range]
  show "distinct (rows_at X (i_case y (length X)) @ rows_at X (i_ctrl y (length X)))"
    by (simp only: rows_at_append)
  from set_rows_at [OF in_range]
  show "set (rows_at X (i_case y (length X)) @ rows_at X (i_ctrl y (length X))) \<subseteq> set X"
    by (simp only: rows_at_append)
qed

lemma fold_collect_pop0_case:
  "X_case_dict (fold (collect_pop0 X y) keys st) k
     = (if k \<in> set keys then [rows_at X (i_case (y k) (length X))] else X_case_dict st k)"
  by (induction keys arbitrary: st) (simp_all add: collect_pop0_def Let_def)

lemma fold_collect_pop0_ctrl:
  "X_ctrl_dict (fold (collect_pop0 X y) keys st) k
     = (if k \<in> set keys then [rows_at X (i_ctrl (y k) (length X))] else X_ctrl_dict st k)"
  by (induction keys arbitrary: st) (simp_all add: collect_pop0_def Let_def)

lemma fold_collect_pop0_used:
  "set (concat (X_idx_used (fold (collect_pop0 X y) keys st)))
     = set (concat (X_idx_used st))
       \<union> (\<Union>k' \<in> set keys. set (i_case (y k') (length X)) \<union> set (i_ctrl (y k') (length X)))"
proof (induction keys arbitrary: st)
  case Nil
  then show ?case by simp
next
  case (Cons k' keys)
  have step: "set (concat (X_idx_used (collect_pop0 X y k' st)))
       = set (concat (X_idx_used st))
         \<union> (set (i_case (y k') (length X)) \<union> set (i_ctrl (y k') (length X)))"
    by (simp add: collect_pop0_def Let_def Un_assoc)
  have "set (concat (X_idx_used (fold (collect_pop0 X y) (k' # keys) st)))
      = set (concat (X_idx_used (collect_pop0 X y k' st)))
        \<union> (\<Union>k' \<in> set keys. set (i_case (y k') (length X)) \<union> set (i_ctrl (y k') (length X)))"
    using Cons.IH [of "collect_pop0 X y k' st"] by simp
  also have "\<dots> = set (concat (X_idx_used st))
       \<union> (\<Union>k' \<in> set (k' # keys). set (i_case (y k') (length X)) \<union> set (i_ctrl (y k') (length X)))"
    unfolding step by auto
  finally show ?case .
qed

lemma realize_entry:
  assumes "k \<in> set keys"
  shows "X_case_dict (realize keys X y) k = [rows_at X (i_case (y k) (length X))]"
    and "X_ctrl_dict (realize keys X y) k = [rows_at X (i_ctrl (y k) (length X))]"
  using assms by (simp_all add: realize_def fold_collect_pop0_case fold_collect_pop0_ctrl)

lemma realize_used:
  "set (concat (X_idx_used (realize keys X y)))
     = (\<Union>k \<in> set keys. set (i_case (y k) (length X)) \<union> set (i_ctrl (y k) (length X)))"
proof -
  have e: "set (concat (X_idx_used (empty_acc :: 'a acc))) = {}"
    by (simp add: empty_acc_def)
  show ?thesis unfolding realize_def fold_collect_pop0_used e by simp
qed

lemma collect_batch_other:
  "k \<noteq> k' \<Longrightarrow>
     n_collected (collect_batch tot dr k' st) k = n_collected st k
   \<and> X_case_dict (collect_batch tot dr k' st) k = X_case_dict st k
   \<and> X_ctrl_dict (collect_batch tot dr k' st) k = X_ctrl_dict st k"
  by (simp add: collect_batch_def Let_def)

lemma collect_batch_same:
  assumes "n_collected s k = n_collected st k" "X_case_dict s k = X_case_dict st k"
    "X_ctrl_dict s k = X_ctrl_dict st k"
  shows "n_collected (collect_batch tot dr k s) k = n_collected (collect_batch tot dr k st) k
   \<and> X_case_dict (collect_batch tot dr k s) k = X_case_dict (collect_batch tot dr k st) k
   \<and> X_ctrl_dict (collect_batch tot dr k s) k = X_ctrl_dict (collect_batch tot dr k st) k"
  using assms by (simp add: collect_batch_def Let_def)

lemma sampling_round_entry:
  assumes "distinct keys"
  shows "n_collected (sampling_round keys tot dr st) k
       = (if k \<in> set keys then n_collected (collect_batch tot dr k st) k else n_collected st k)
   \<and> X_case_dict (sampling_round keys tot dr st) k
       = (if k \<in> set keys then X_case_dict (collect_batch tot dr k st) k else X_case_dict st k)
   \<and> X_ctrl_dict (sampling_round keys tot dr st) k
       = (if k \<in> set keys then X_ctrl_dict (collect_batch tot dr k st) k else X_ctrl_dict st k)"
  using assms unfolding sampling_round_def
proof (induction keys arbitrary: st)
  case Nil
  then show ?case by simp
next
  case (Cons k' keys)
  let ?s = "collect_batch tot dr k' st"
  from Cons.prems have d: "distinct keys" and notin: "k' \<notin> set keys" by simp_all
  note ih = Cons.IH [OF d, of ?s]
  show ?case
  proof (cases "k = k'")
    case True
    with notin ih show ?thesis by simp
  next
    case False
    from collect_batch_other [OF False, of tot dr st]
    have same: "n_collected ?s k = n_collected st k" "X_case_dict ?s k = X_case_dict st k"
      "X_ctrl_dict ?s k = X_ctrl_dict st k" by simp_all
    from collect_batch_same [OF same] same False ih show ?thesis by simp
  qed
qed

lemma distinct_interleave:
  assumes "distinct (a @ c)" and "distinct (b @ d)" and "set (a @ c) \<inter> set (b @ d) = {}"
  shows "distinct ((a @ b) @ (c @ d))"
  using assms by auto

lemma fresh_pools_Suc:
  assumes "fresh_pools A draws r st k"
  shows "fresh_pools A draws (Suc r) st k"
proof -
  have "(\<Union>r' \<in> {..<r}. set (draw_X (draws r'))) \<subseteq> (\<Union>r' \<in> {..<Suc r}. set (draw_X (draws r')))"
    by (intro UN_mono) auto
  then have "A \<union> (\<Union>r' \<in> {..<r}. set (draw_X (draws r')))
      \<subseteq> A \<union> (\<Union>r' \<in> {..<Suc r}. set (draw_X (draws r')))"
    by blast
  with assms show ?thesis unfolding fresh_pools_def by blast
qed

lemma fresh_pools_collect_batch:
  assumes inv: "fresh_pools A draws r st k"
    and A: "A \<inter> set (draw_X (draws r)) = {}"
    and dist: "distinct (draw_X (draws r))"
    and earlier: "\<forall>r' < r. set (draw_X (draws r')) \<inter> set (draw_X (draws r)) = {}"
  shows "fresh_pools A draws (Suc r) (collect_batch tot (draws r) k st) k"
proof (cases "n_collected st k < tot")
  case False
  then have "collect_batch tot (draws r) k st = st" by (simp add: collect_batch_def)
  with fresh_pools_Suc [OF inv] show ?thesis by simp
next
  case True
  define X where "X = draw_X (draws r)"
  define bc where "bc = rows_at X (i_case (draw_y (draws r) k) (length X))"
  define bt where "bt = rows_at X (i_ctrl (draw_y (draws r) k) (length X))"
  define cs where "cs = concat (X_case_dict st k)"
  define ct where "ct = concat (X_ctrl_dict st k)"
  define E where "E = (\<Union>r' \<in> {..<r}. set (draw_X (draws r')))"
  from True have new: "concat (X_case_dict (collect_batch tot (draws r) k st) k) = cs @ bc"
    "concat (X_ctrl_dict (collect_batch tot (draws r) k st) k) = ct @ bt"
    by (simp_all add: collect_batch_def Let_def cs_def ct_def bc_def bt_def X_def)
  from dist have "distinct X" by (simp add: X_def)
  from batch_rows [OF this, of "draw_y (draws r) k"]
  have b: "distinct (bc @ bt)" "set (bc @ bt) \<subseteq> set X"
    unfolding bc_def bt_def by blast+
  from inv have old: "distinct (cs @ ct)" "set (cs @ ct) \<subseteq> A \<union> E"
    unfolding fresh_pools_def cs_def ct_def E_def by blast+
  from A have AX: "A \<inter> set X = {}" by (simp add: X_def)
  from earlier have EX: "E \<inter> set X = {}" unfolding E_def X_def by blast
  from old(2) AX EX have "set (cs @ ct) \<inter> set X = {}" by blast
  with b(2) have disj: "set (cs @ ct) \<inter> set (bc @ bt) = {}" by blast
  from old(1) b(1) disj have d: "distinct ((cs @ bc) @ (ct @ bt))"
    by (rule distinct_interleave)
  have "set ((cs @ bc) @ (ct @ bt)) = set (cs @ ct) \<union> set (bc @ bt)" by auto
  with old(2) b(2) have "set ((cs @ bc) @ (ct @ bt)) \<subseteq> A \<union> (E \<union> set X)" by blast
  also have "E \<union> set X = (\<Union>r' \<in> {..<Suc r}. set (draw_X (draws r')))"
    unfolding E_def X_def lessThan_Suc by auto
  finally have s: "set ((cs @ bc) @ (ct @ bt))
      \<subseteq> A \<union> (\<Union>r' \<in> {..<Suc r}. set (draw_X (draws r')))" .
  from d s show ?thesis unfolding fresh_pools_def new by blast
qed

lemma fresh_pools_sampling_round:
  assumes keys: "distinct keys"
    and inv: "fresh_pools A draws r st k"
    and A: "A \<inter> set (draw_X (draws r)) = {}"
    and dist: "distinct (draw_X (draws r))"
    and earlier: "\<forall>r' < r. set (draw_X (draws r')) \<inter> set (draw_X (draws r)) = {}"
  shows "fresh_pools A draws (Suc r) (sampling_round keys tot (draws r) st) k"
proof (cases "k \<in> set keys")
  case True
  with sampling_round_entry [OF keys, of tot "draws r" st k]
  have "X_case_dict (sampling_round keys tot (draws r) st) k
      = X_case_dict (collect_batch tot (draws r) k st) k"
    "X_ctrl_dict (sampling_round keys tot (draws r) st) k
      = X_ctrl_dict (collect_batch tot (draws r) k st) k" by simp_all
  with fresh_pools_collect_batch [OF inv A dist earlier, of tot] show ?thesis
    by (simp add: fresh_pools_def)
next
  case False
  with sampling_round_entry [OF keys, of tot "draws r" st k]
  have "X_case_dict (sampling_round keys tot (draws r) st) k = X_case_dict st k"
    "X_ctrl_dict (sampling_round keys tot (draws r) st) k = X_ctrl_dict st k" by simp_all
  with fresh_pools_Suc [OF inv] show ?thesis by (simp add: fresh_pools_def)
qed

lemma fresh_pools_rounds:
  assumes keys: "distinct keys"
    and A: "\<forall>r. A \<inter> set (draw_X (draws r)) = {}"
    and dist: "\<forall>r. distinct (draw_X (draws r))"
    and other: "\<forall>r r'. r \<noteq> r' \<longrightarrow> set (draw_X (draws r)) \<inter> set (draw_X (draws r')) = {}"
  shows "fresh_pools A draws r st k \<Longrightarrow>
     fresh_pools A draws (r + n) (rounds keys tot draws r n st) k"
proof (induction n arbitrary: r st)
  case 0
  then show ?case by simp
next
  case (Suc n)
  from other have "\<forall>r' < r. set (draw_X (draws r')) \<inter> set (draw_X (draws r)) = {}"
    by auto
  with fresh_pools_sampling_round [OF keys Suc.prems, of tot] A dist
  have "fresh_pools A draws (Suc r) (sampling_round keys tot (draws r) st) k" by blast
  from Suc.IH [OF this] show ?case by simp
qed

lemma concat_blocks:
  "concat (map (\<lambda>i. take k (drop (i * k) xs)) [0..<n]) = take (n * k) xs"
proof (induction n)
  case 0
  then show ?case by simp
next
  case (Suc n)
  have "take (n * k + k) xs = take (n * k) xs @ take k (drop (n * k) xs)"
    by (rule take_add)
  with Suc show ?case by (simp add: add.commute)
qed

lemma reshape_concat: "reshape n k xs = Inr blocks \<Longrightarrow> concat blocks = xs"
  by (auto simp: reshape_def concat_blocks split: if_splits)

lemma split_ld_panels:
  "split_ld n_rep start X sizes = Inr panels \<Longrightarrow>
     length panels = length sizes
   \<and> (\<forall>a < length sizes. length (panels ! a) = n_rep \<and> (\<forall>p \<in> set (panels ! a). length p = sizes ! a))
   \<and> concat (map concat panels) = take (n_rep * sum_list sizes) (drop start X)"
proof (induction sizes arbitrary: start panels)
  case Nil
  then show ?case by simp
next
  case (Cons n_ld sizes)
  let ?stop = "start + n_rep * n_ld"
  from Cons.prems obtain blocks rest where
    blocks: "reshape n_rep n_ld (take (n_rep * n_ld) (drop start X)) = Inr blocks"
    and rest: "split_ld n_rep ?stop X sizes = Inr rest"
    and panels: "panels = blocks # rest"
    by (auto simp: Let_def split: sum.splits)
  from reshape_blocks [OF blocks] have b: "length blocks = n_rep" "\<forall>p \<in> set blocks. length p = n_ld"
    by simp_all
  from reshape_concat [OF blocks] have c: "concat blocks = take (n_rep * n_ld) (drop start X)" .
  from Cons.IH [OF rest] have ih: "length rest = length sizes"
    "\<forall>a < length sizes. length (rest ! a) = n_rep \<and> (\<forall>p \<in> set (rest ! a). length p = sizes ! a)"
    "concat (map concat rest) = take (n_rep * sum_list sizes) (drop ?stop X)"
    by simp_all
  have len: "length panels = length (n_ld # sizes)" using ih(1) panels by simp
  have each: "\<forall>a < length (n_ld # sizes). length (panels ! a) = n_rep
      \<and> (\<forall>p \<in> set (panels ! a). length p = (n_ld # sizes) ! a)"
  proof (intro allI impI)
    fix a assume "a < length (n_ld # sizes)"
    then show "length (panels ! a) = n_rep \<and> (\<forall>p \<in> set (panels ! a). length p = (n_ld # sizes) ! a)"
      using b ih(2) panels by (cases a) simp_all
  qed
  have "take (n_rep * n_ld + n_rep * sum_list sizes) (drop start X)
      = take (n_rep * n_ld) (drop start X)
        @ take (n_rep * sum_list sizes) (drop (n_rep * n_ld) (drop start X))"
    by (rule take_add)
  also have "drop (n_rep * n_ld) (drop start X) = drop ?stop X"
    by (simp add: add.commute)
  finally have "concat (map concat panels) = take (n_rep * sum_list (n_ld # sizes)) (drop start X)"
    using c ih(3) panels by (simp add: distrib_left)
  with len each show ?case by blast
qed

lemma distinct_concat_disjoint:
  "distinct (concat xs) \<Longrightarrow> i < j \<Longrightarrow> j < length xs \<Longrightarrow> set (xs ! i) \<inter> set (xs ! j) = {}"
proof (induction xs arbitrary: i j)
  case Nil
  then show ?case by simp
next
  case (Cons x xs)
  show ?case
  proof (cases i)
    case 0
    with Cons.prems obtain j' where j': "j = Suc j'" "j' < length xs" by (cases j) auto
    then have "xs ! j' \<in> set xs" by simp
    then have "set (xs ! j') \<subseteq> set (concat xs)" by auto
    with Cons.prems(1) 0 j' show ?thesis by auto
  next
    case (Suc i')
    with Cons.prems obtain j' where j': "j = Suc j'" "j' < length xs" "i' < j'" by (cases j) auto
    from Cons.prems(1) have "distinct (concat xs)" by simp
    from Cons.IH [OF this j'(3) j'(2)] Suc j' show ?thesis by simp
  qed
qed

lemma ld_pool_rows:
  "ld_pool n_ld_tot X (X_idx_used (realize keys X y))
     = take n_ld_tot (rows_at X (filter (\<lambda>i. \<forall>k \<in> set keys.
          i \<notin> set (i_case (y k) (length X)) \<and> i \<notin> set (i_ctrl (y k) (length X))) [0..<length X]))"
proof -
  have "set (sort (remdups (concat (X_idx_used (realize keys X y)))))
      = (\<Union>k \<in> set keys. set (i_case (y k) (length X)) \<union> set (i_ctrl (y k) (length X)))"
    by (simp only: set_sort set_remdups realize_used)
  then have "(\<lambda>i. i \<notin> set (sort (remdups (concat (X_idx_used (realize keys X y))))))
      = (\<lambda>i. \<forall>k \<in> set keys.
          i \<notin> set (i_case (y k) (length X)) \<and> i \<notin> set (i_ctrl (y k) (length X)))"
    by auto
  then show ?thesis unfolding ld_pool_def Let_def by (simp only:)
qed

lemma ld_pool_unused:
  assumes "x \<in> set (ld_pool n_ld_tot X (X_idx_used (realize keys X y)))"
  shows "\<exists>i < length X. x = X ! i \<and> (\<forall>k \<in> set keys.
          i \<notin> set (i_case (y k) (length X)) \<and> i \<notin> set (i_ctrl (y k) (length X)))"
proof -
  from assms have "x \<in> set (rows_at X (filter (\<lambda>i. \<forall>k \<in> set keys.
          i \<notin> set (i_case (y k) (length X)) \<and> i \<notin> set (i_ctrl (y k) (length X))) [0..<length X]))"
    unfolding ld_pool_rows by (rule in_set_takeD)
  then show ?thesis unfolding rows_at_def by auto
qed

lemma distinct_take_append:
  assumes "distinct (xs @ ys)"
  shows "distinct (take a xs @ take b ys)"
proof -
  have "set (take a xs) \<subseteq> set xs" "set (take b ys) \<subseteq> set ys"
    by (rule set_take_subset)+
  with assms show ?thesis by (auto simp: distinct_take)
qed

lemma rows_at_index:
  assumes "x \<in> set (rows_at X idx)"
  shows "\<exists>i \<in> set idx. x = X ! i"
  using assms by (auto simp: rows_at_def)

lemma divide_concat:
  assumes "divide n_rep n_cs st k = Inr (X_case, X_ctrl, X_gwa)"
  shows "concat X_case = take (n_cs * n_rep) (concat (X_case_dict st k))"
    and "concat X_ctrl = take (n_cs * n_rep) (concat (X_ctrl_dict st k))"
  using assms by (auto simp: divide_def split: sum.splits dest: reshape_concat)

lemma split_ld_enough:
  "n_rep * sum_list sizes \<le> length X - start \<Longrightarrow> \<exists>panels. split_ld n_rep start X sizes = Inr panels"
proof (induction sizes arbitrary: start)
  case Nil
  then show ?case by simp
next
  case (Cons n_ld sizes)
  let ?stop = "start + n_rep * n_ld"
  from Cons.prems have le: "n_rep * n_ld + n_rep * sum_list sizes \<le> length X - start"
    by (simp add: distrib_left)
  then have "length (take (n_rep * n_ld) (drop start X)) = n_rep * n_ld" by simp
  from reshape_Inr [OF this] obtain blocks where
    blocks: "reshape n_rep n_ld (take (n_rep * n_ld) (drop start X)) = Inr blocks" by blast
  from le have "n_rep * sum_list sizes \<le> length X - ?stop" by simp
  from Cons.IH [OF this] obtain rest where rest: "split_ld n_rep ?stop X sizes = Inr rest"
    by blast
  from blocks rest show ?case by (simp add: Let_def)
qed

lemma split_ld_short:
  "length X - start < n_rep * sum_list sizes \<Longrightarrow> split_ld n_rep start X sizes = Inl ValueError"
proof (induction sizes arbitrary: start)
  case Nil
  then show ?case by simp
next
  case (Cons n_ld sizes)
  let ?stop = "start + n_rep * n_ld"
  from Cons.prems have short: "length X - start < n_rep * n_ld + n_rep * sum_list sizes"
    by (simp add: distrib_left)
  show ?case
  proof (cases "length X - start < n_rep * n_ld")
    case True
    then have "length (take (n_rep * n_ld) (drop start X)) \<noteq> n_rep * n_ld" by simp
    from reshape_Inl [OF this] show ?thesis by (simp add: Let_def)
  next
    case False
    then have "length (take (n_rep * n_ld) (drop start X)) = n_rep * n_ld" by simp
    from reshape_Inr [OF this] obtain blocks where
      blocks: "reshape n_rep n_ld (take (n_rep * n_ld) (drop start X)) = Inr blocks" by blast
    from short False have "length X - ?stop < n_rep * sum_list sizes" by simp
    from Cons.IH [OF this] blocks show ?thesis by (simp add: Let_def)
  qed
qed

text \<open>
  Claim C5. Rows stand for sampled individuals: the initial pool holds no individual
  twice and every round draws individuals that have not been drawn before. Then, for
  every combination, the blocks of cases and of controls of the replicates are pairwise
  disjoint and share no row with the LD pool. The LD pool consists of the first
  \<open>n_ld_total\<close> rows of the initial pool whose index was selected neither as a case nor
  as a control of any combination. When it holds at least \<open>n_rep\<close> times the sum of the
  LD sizes rows, the loop over the LD sizes cuts its first rows, in the order of the
  sizes, into \<open>n_rep\<close> panels of each size; with fewer rows the reshape raises.
\<close>

theorem partitions_disjoint:
  assumes keys: "distinct keys" and k: "k \<in> set keys"
    and run: "accumulate keys tot draws 0 (realize keys X_pop0 y0) = Some st'"
    and part: "divide n_rep n_cs st' k = Inr (X_case, X_ctrl, X_gwa)"
    and pool: "distinct X_pop0"
    and fresh: "\<forall>r. distinct (draw_X (draws r)) \<and> set X_pop0 \<inter> set (draw_X (draws r)) = {}"
    and other: "\<forall>r r'. r \<noteq> r' \<longrightarrow> set (draw_X (draws r)) \<inter> set (draw_X (draws r')) = {}"
  shows "distinct (concat X_case @ concat X_ctrl)
    \<and> (\<forall>i j. i < j \<and> j < length X_case \<longrightarrow> set (X_case ! i) \<inter> set (X_case ! j) = {})
    \<and> (\<forall>i j. i < j \<and> j < length X_ctrl \<longrightarrow> set (X_ctrl ! i) \<inter> set (X_ctrl ! j) = {})
    \<and> (\<forall>c \<in> set X_case. \<forall>t \<in> set X_ctrl. set c \<inter> set t = {})
    \<and> set (concat X_case @ concat X_ctrl)
        \<inter> set (ld_pool n_ld_tot X_pop0 (X_idx_used (realize keys X_pop0 y0))) = {}
    \<and> ld_pool n_ld_tot X_pop0 (X_idx_used (realize keys X_pop0 y0))
        = take n_ld_tot (rows_at X_pop0 (filter (\<lambda>i. \<forall>k' \<in> set keys.
            i \<notin> set (i_case (y0 k') (length X_pop0)) \<and> i \<notin> set (i_ctrl (y0 k') (length X_pop0)))
            [0..<length X_pop0]))
    \<and> (if n_rep * sum_list sizes
            \<le> length (ld_pool n_ld_tot X_pop0 (X_idx_used (realize keys X_pop0 y0)))
        then \<exists>panels.
          split_ld n_rep 0 (ld_pool n_ld_tot X_pop0 (X_idx_used (realize keys X_pop0 y0))) sizes
            = Inr panels
          \<and> length panels = length sizes
          \<and> (\<forall>a < length sizes. length (panels ! a) = n_rep
                \<and> (\<forall>p \<in> set (panels ! a). length p = sizes ! a))
          \<and> concat (map concat panels)
              = take (n_rep * sum_list sizes)
                  (ld_pool n_ld_tot X_pop0 (X_idx_used (realize keys X_pop0 y0)))
        else split_ld n_rep 0 (ld_pool n_ld_tot X_pop0 (X_idx_used (realize keys X_pop0 y0))) sizes
            = Inl ValueError)"
proof -
  define st0 where "st0 = realize keys X_pop0 y0"
  define ic where "ic = i_case (y0 k) (length X_pop0)"
  define it where "it = i_ctrl (y0 k) (length X_pop0)"
  define A where "A = set (rows_at X_pop0 ic @ rows_at X_pop0 it)"
  define cs where "cs = concat (X_case_dict st' k)"
  define ct where "ct = concat (X_ctrl_dict st' k)"
  define ld where "ld = ld_pool n_ld_tot X_pop0 (X_idx_used (realize keys X_pop0 y0))"
  from batch_rows [OF pool, of "y0 k"]
  have A: "distinct (rows_at X_pop0 ic @ rows_at X_pop0 it)" "A \<subseteq> set X_pop0"
    unfolding A_def ic_def it_def by blast+
  from realize_entry [OF k, of X_pop0 y0]
  have "concat (X_case_dict st0 k) @ concat (X_ctrl_dict st0 k)
      = rows_at X_pop0 ic @ rows_at X_pop0 it"
    by (simp add: st0_def ic_def it_def)
  with A(1) have init: "fresh_pools A draws 0 st0 k"
    by (simp add: fresh_pools_def A_def)
  from A(2) fresh have Adraw: "\<forall>r. A \<inter> set (draw_X (draws r)) = {}" by blast
  from fresh have dist: "\<forall>r. distinct (draw_X (draws r))" by blast
  from accumulate_rounds [OF run] obtain n where "st' = rounds keys tot draws 0 n st0"
    unfolding st0_def by blast
  with fresh_pools_rounds [OF keys Adraw dist other init, of n tot]
  have "fresh_pools A draws n st' k" by simp
  then have pools: "distinct (cs @ ct)"
    "set (cs @ ct) \<subseteq> A \<union> (\<Union>r' \<in> {..<n}. set (draw_X (draws r')))"
    unfolding fresh_pools_def cs_def ct_def by blast+
  from divide_concat [OF part]
  have cc: "concat X_case = take (n_cs * n_rep) cs" "concat X_ctrl = take (n_cs * n_rep) ct"
    by (simp_all add: cs_def ct_def)
  from pools(1) have d: "distinct (concat X_case @ concat X_ctrl)"
    unfolding cc by (rule distinct_take_append)
  then have dc: "distinct (concat X_case)" and dt: "distinct (concat X_ctrl)"
    and dct: "set (concat X_case) \<inter> set (concat X_ctrl) = {}"
    by simp_all
  have pc: "\<forall>i j. i < j \<and> j < length X_case \<longrightarrow> set (X_case ! i) \<inter> set (X_case ! j) = {}"
    using distinct_concat_disjoint [OF dc] by blast
  have pt: "\<forall>i j. i < j \<and> j < length X_ctrl \<longrightarrow> set (X_ctrl ! i) \<inter> set (X_ctrl ! j) = {}"
    using distinct_concat_disjoint [OF dt] by blast
  have pct: "\<forall>c \<in> set X_case. \<forall>t \<in> set X_ctrl. set c \<inter> set t = {}"
  proof (intro ballI)
    fix c t assume "c \<in> set X_case" and "t \<in> set X_ctrl"
    then have "set c \<subseteq> set (concat X_case)" and "set t \<subseteq> set (concat X_ctrl)" by auto
    with dct show "set c \<inter> set t = {}" by blast
  qed
  have sub: "set (concat X_case @ concat X_ctrl) \<subseteq> set (cs @ ct)"
  proof -
    have "set (take (n_cs * n_rep) cs) \<subseteq> set cs" "set (take (n_cs * n_rep) ct) \<subseteq> set ct"
      by (rule set_take_subset)+
    then show ?thesis unfolding cc by auto
  qed
  have disj: "set (concat X_case @ concat X_ctrl) \<inter> set ld = {}"
  proof (rule equals0I)
    fix x assume "x \<in> set (concat X_case @ concat X_ctrl) \<inter> set ld"
    then have x: "x \<in> set (concat X_case @ concat X_ctrl)" and xl: "x \<in> set ld" by blast+
    from ld_pool_unused [OF xl [unfolded ld_def]] obtain i where
      i: "i < length X_pop0" "x = X_pop0 ! i"
      "\<forall>k' \<in> set keys. i \<notin> set (i_case (y0 k') (length X_pop0))
          \<and> i \<notin> set (i_ctrl (y0 k') (length X_pop0))"
      by blast
    from i(1,2) have xp: "x \<in> set X_pop0" by simp
    from x sub pools(2) have "x \<in> A \<or> (\<exists>r. x \<in> set (draw_X (draws r)))" by blast
    then show False
    proof
      assume "x \<in> A"
      then have "x \<in> set (rows_at X_pop0 (ic @ it))" by (simp add: A_def rows_at_append)
      from rows_at_index [OF this] obtain i' where i': "i' \<in> set (ic @ it)" "x = X_pop0 ! i'"
        by blast
      from i'(1) have "i' < length X_pop0"
        using set_i_ctrl [of "y0 k" "length X_pop0"]
        by (auto simp: ic_def it_def set_i_case)
      with pool i(1,2) i'(2) have "i = i'" by (simp add: nth_eq_iff_index_eq)
      with i(3) k i'(1) show False by (auto simp: ic_def it_def)
    next
      assume "\<exists>r. x \<in> set (draw_X (draws r))"
      with fresh xp show False by blast
    qed
  qed
  have rows: "ld = take n_ld_tot (rows_at X_pop0 (filter (\<lambda>i. \<forall>k' \<in> set keys.
            i \<notin> set (i_case (y0 k') (length X_pop0)) \<and> i \<notin> set (i_ctrl (y0 k') (length X_pop0)))
            [0..<length X_pop0]))"
    unfolding ld_def by (rule ld_pool_rows)
  have split: "if n_rep * sum_list sizes \<le> length ld
        then \<exists>panels. split_ld n_rep 0 ld sizes = Inr panels
          \<and> length panels = length sizes
          \<and> (\<forall>a < length sizes. length (panels ! a) = n_rep
                \<and> (\<forall>p \<in> set (panels ! a). length p = sizes ! a))
          \<and> concat (map concat panels) = take (n_rep * sum_list sizes) ld
        else split_ld n_rep 0 ld sizes = Inl ValueError"
  proof (cases "n_rep * sum_list sizes \<le> length ld")
    case True
    then have "n_rep * sum_list sizes \<le> length ld - 0" by simp
    from split_ld_enough [OF this] obtain panels where p: "split_ld n_rep 0 ld sizes = Inr panels"
      by blast
    from split_ld_panels [OF p] p True show ?thesis by auto
  next
    case False
    then have "length ld - 0 < n_rep * sum_list sizes" by simp
    from split_ld_short [OF this] False show ?thesis by simp
  qed
  from d pc pt pct disj rows split show ?thesis
    unfolding ld_def by (intro conjI)
qed

lemma ids_run:
  "accumulate pool_keys (tot_n_case 4 2) ids_draws 0 (realize pool_keys ids_X_pop0 ids_y0)
     = Some ids_end"
  apply (subst accumulate.simps)
  apply (subst accumulate.simps)
  apply (simp add: ids_end_def pool_keys_def combinations_def realize_def collect_pop0_def
      ids_X_pop0_def ids_y0_def ids_draws_def empty_acc_def sampling_round_def collect_batch_def
      i_case_def i_ctrl_def rows_at_def Let_def upt_conv_Cons tot_n_case_def n_case_def)
  done

lemma ids_divide:
  "divide 2 (n_case 4) ids_end (''0.1'', ''0.5'')
     = Inr ([[0, 100], [101, 102]], [[1, 106], [107, 108]],
            [[0, 100, 1, 106], [101, 102, 107, 108]])"
  by (simp add: ids_end_def pool_keys_def combinations_def realize_def collect_pop0_def
      ids_X_pop0_def ids_y0_def ids_draws_def empty_acc_def sampling_round_def collect_batch_def
      i_case_def i_ctrl_def rows_at_def Let_def upt_conv_Cons divide_def reshape_def
      tot_n_case_def n_case_def)

lemma ids_ld:
  "ld_pool (n_ld_total [1, 1] 2) ids_X_pop0 (X_idx_used (realize pool_keys ids_X_pop0 ids_y0))
     = [2, 3, 4, 5]"
  by (simp add: pool_keys_def combinations_def realize_def collect_pop0_def
      ids_X_pop0_def ids_y0_def empty_acc_def i_case_def i_ctrl_def rows_at_def Let_def
      upt_conv_Cons ld_pool_def n_ld_total_def)

lemma ids_split: "split_ld 2 0 [2, 3, 4, 5 :: nat] [1, 1] = Inr [[[2], [3]], [[4], [5]]]"
  by (simp add: reshape_def Let_def upt_conv_Cons)

lemma ids_draw_set: "set (draw_X (ids_draws r)) = (\<lambda>i. 100 * Suc r + i) ` {0..<10}"
  by (simp add: ids_draws_def del: upt_rec_numeral)

lemma ids_apart:
  assumes ne: "r \<noteq> r'" and i: "i < 10" "i' < 10"
  shows "100 * Suc r + i \<noteq> 100 * Suc r' + (i' :: nat)"
proof
  assume eq: "100 * Suc r + i = 100 * Suc r' + i'"
  show False
  proof (cases "r < r'")
    case True
    then have "Suc r \<le> r'" by simp
    then have "100 * Suc r \<le> 100 * r'" by simp
    with eq i show False by simp
  next
    case False
    with ne have "Suc r' \<le> r" by simp
    then have "100 * Suc r' \<le> 100 * r" by simp
    with eq i show False by simp
  qed
qed

lemma ids_fresh:
  "\<forall>r. distinct (draw_X (ids_draws r)) \<and> set ids_X_pop0 \<inter> set (draw_X (ids_draws r)) = {}"
proof (intro allI conjI)
  fix r
  have "inj_on (\<lambda>i. 100 * Suc r + i) A" for A by (rule inj_onI) simp
  then show "distinct (draw_X (ids_draws r))"
    by (simp add: ids_draws_def distinct_map del: upt_rec_numeral)
  have "x \<le> 5" if "x \<in> set ids_X_pop0" for x
    using that by (auto simp: ids_X_pop0_def)
  moreover have "100 \<le> x" if "x \<in> set (draw_X (ids_draws r))" for x
    using that unfolding ids_draw_set by auto
  ultimately show "set ids_X_pop0 \<inter> set (draw_X (ids_draws r)) = {}" by fastforce
qed

lemma ids_other:
  "\<forall>r r'. r \<noteq> r' \<longrightarrow> set (draw_X (ids_draws r)) \<inter> set (draw_X (ids_draws r')) = {}"
proof (intro allI impI)
  fix r r' :: nat assume ne: "r \<noteq> r'"
  from ids_apart [OF ne]
  show "set (draw_X (ids_draws r)) \<inter> set (draw_X (ids_draws r')) = {}"
    unfolding ids_draw_set by fastforce
qed

theorem partitions_disjoint_witness:
  "accumulate pool_keys (tot_n_case 4 2) ids_draws 0 (realize pool_keys ids_X_pop0 ids_y0)
     = Some ids_end
   \<and> divide 2 (n_case 4) ids_end (''0.1'', ''0.5'')
       = Inr ([[0, 100], [101, 102]], [[1, 106], [107, 108]],
              [[0, 100, 1, 106], [101, 102, 107, 108]])
   \<and> ld_pool (n_ld_total [1, 1] 2) ids_X_pop0 (X_idx_used (realize pool_keys ids_X_pop0 ids_y0))
       = [2, 3, 4, 5]
   \<and> split_ld 2 0
        (ld_pool (n_ld_total [1, 1] 2) ids_X_pop0 (X_idx_used (realize pool_keys ids_X_pop0 ids_y0)))
        [1, 1] = Inr [[[2], [3]], [[4], [5]]]
   \<and> distinct (concat [[0, 100 :: nat], [101, 102]] @ concat [[1, 106], [107, 108]])
   \<and> set (concat [[0, 100], [101, 102]] @ concat [[1, 106], [107, 108]])
       \<inter> set (ld_pool (n_ld_total [1, 1] 2) ids_X_pop0
               (X_idx_used (realize pool_keys ids_X_pop0 ids_y0))) = {}"
proof -
  have keys: "distinct pool_keys" and k: "(''0.1'', ''0.5'') \<in> set pool_keys"
    by (simp_all add: pool_keys_def combinations_def)
  have pool: "distinct ids_X_pop0" by (simp add: ids_X_pop0_def)
  note t = partitions_disjoint [OF keys k ids_run ids_divide pool ids_fresh ids_other,
      of "n_ld_total [1, 1] 2" "[1, 1]"]
  from t have d: "distinct (concat [[0, 100 :: nat], [101, 102]] @ concat [[1, 106], [107, 108]])
    \<and> set (concat [[0, 100], [101, 102]] @ concat [[1, 106], [107, 108]])
       \<inter> set (ld_pool (n_ld_total [1, 1] 2) ids_X_pop0
               (X_idx_used (realize pool_keys ids_X_pop0 ids_y0))) = {}"
    by blast
  have enough: "2 * sum_list [1, 1]
      \<le> length (ld_pool (n_ld_total [1, 1] 2) ids_X_pop0
           (X_idx_used (realize pool_keys ids_X_pop0 ids_y0)))"
    unfolding ids_ld by simp
  from t have "if 2 * sum_list [1, 1]
            \<le> length (ld_pool (n_ld_total [1, 1] 2) ids_X_pop0
                 (X_idx_used (realize pool_keys ids_X_pop0 ids_y0)))
        then \<exists>panels.
          split_ld 2 0 (ld_pool (n_ld_total [1, 1] 2) ids_X_pop0
              (X_idx_used (realize pool_keys ids_X_pop0 ids_y0))) [1, 1] = Inr panels
          \<and> length panels = length [1, 1 :: nat]
          \<and> (\<forall>a < length [1, 1 :: nat]. length (panels ! a) = 2
                \<and> (\<forall>p \<in> set (panels ! a). length p = [1, 1] ! a))
          \<and> concat (map concat panels)
              = take (2 * sum_list [1, 1])
                  (ld_pool (n_ld_total [1, 1] 2) ids_X_pop0
                    (X_idx_used (realize pool_keys ids_X_pop0 ids_y0)))
        else split_ld 2 0 (ld_pool (n_ld_total [1, 1] 2) ids_X_pop0
              (X_idx_used (realize pool_keys ids_X_pop0 ids_y0))) [1, 1] = Inl ValueError"
    by blast
  from this [unfolded if_P [OF enough]] obtain panels where
    p: "split_ld 2 0 (ld_pool (n_ld_total [1, 1] 2) ids_X_pop0
        (X_idx_used (realize pool_keys ids_X_pop0 ids_y0))) [1, 1] = Inr panels"
    by blast
  have "split_ld 2 0
        (ld_pool (n_ld_total [1, 1] 2) ids_X_pop0 (X_idx_used (realize pool_keys ids_X_pop0 ids_y0)))
        [1, 1] = Inr [[[2], [3]], [[4], [5]]]"
    by (simp only: ids_ld ids_split)
  with p have s: "split_ld 2 0
        (ld_pool (n_ld_total [1, 1] 2) ids_X_pop0 (X_idx_used (realize pool_keys ids_X_pop0 ids_y0)))
        [1, 1] = Inr [[[2], [3]], [[4], [5]]]"
    by simp
  from ids_run ids_divide ids_ld s d show ?thesis by blast
qed

end
